theory Spec2Isabelle
  imports Main "HOL-Library.Char_ord" "HOL-Library.List_Lexorder" "HOL-Library.AList"
begin

section \<open>Errors, sources and results\<close>

text \<open>
  Go's \<open>error\<close> interface is modelled by one datatype. The constructors are the errors
  that the code under study (and the standard \<open>flag\<close> package it wraps) builds itself;
  \<open>ErrOther\<close> stands for any error value produced outside (by a \<open>ValParser\<close> such as
  \<open>strconv.ParseInt\<close>, by a caller's callback, by a secondary parser).
  \<open>ErrInvalidDefault\<close> is \<open>fmt.Errorf("flag: invalid default value %q: %w", def, err)\<close>,
  \<open>ErrEnv\<close> is \<open>fmt.Errorf("env: %w", err)\<close> and \<open>ErrEnvFile\<close> is
  \<open>fmt.Errorf("env: unable to parse env file %q: %w", path, err)\<close>.
\<close>

datatype error =
    ErrHelp
  | ErrNoSuchFlag string
  | ErrBadFlagSyntax string
  | ErrNotDefined string
  | ErrNeedsArgument string
  | ErrInvalidBooleanValue string string error
  | ErrInvalidBooleanFlag string error
  | ErrInvalidValue string string error
  | ErrInvalidDefault string error
  | ErrEnv error
  | ErrEnvFile string error
  | ErrOther string

text \<open>\<open>type Source string\<close> with its two standard sources.\<close>

type_synonym Source = string

definition SourceDefaultVal :: Source where
  "SourceDefaultVal = ''default''"

definition SourceFlags :: Source where
  "SourceFlags = ''flags''"

text \<open>The three error handling policies of the flag package.\<close>

datatype ErrorHandling = ContinueOnError | ExitOnError | PanicOnError

text \<open>
  A call either returns, or ends the process with \<open>os.Exit(code)\<close>, or panics with an
  error value.
\<close>

datatype 'a outcome = Return 'a | Exit nat | Panic error

section \<open>Scalar values: \<open>value[T]\<close>\<close>

text \<open>
  \<open>type ValParser[T any] func(string) (T, error)\<close> and
  \<open>type ValSetter[T any] func(*T, string) error\<close>. A setter receives a pointer: it
  may write the pointee and it returns an error or nil, so it is modelled as a function
  from the old pointee to the error and the new pointee.
\<close>

type_synonym 'v ValParser = "string \<Rightarrow> error + 'v"
type_synonym 'v ValSetter = "'v \<Rightarrow> string \<Rightarrow> error option \<times> 'v"

text \<open>
  \<open>func set[T any](parse ValParser[T]) ValSetter[T]\<close>: parse, return the error without
  writing, otherwise assign.
\<close>

definition set_parser :: "'v ValParser \<Rightarrow> 'v ValSetter" where
  "set_parser parse = (\<lambda>t s.
     case parse s of
       Inl err \<Rightarrow> (Some err, t)
     | Inr v \<Rightarrow> (None, v))"

definition SetterFrom :: "'v ValParser \<Rightarrow> 'v ValSetter" where
  "SetterFrom parser = set_parser parser"

text \<open>
  \<open>type value[T any] struct { Value *T; Setter ValSetter[T] }\<close>. The HOL type \<open>'v\<close>
  stands for \<open>T\<close>; what \<open>reflect.TypeOf(*v.Value).Kind() == reflect.Bool\<close> answers
  depends on \<open>T\<close> alone and is kept as the field \<open>value_IsBool\<close>.
\<close>

record 'v value_rec =
  value_Value :: 'v
  value_Setter :: "'v ValSetter"
  value_IsBool :: bool

definition Var :: "bool \<Rightarrow> 'v \<Rightarrow> 'v ValSetter \<Rightarrow> 'v value_rec" where
  "Var isBool val setter =
     \<lparr> value_Value = val, value_Setter = setter, value_IsBool = isBool \<rparr>"

text \<open>
  \<open>MustVar\<close>: the default is given as a string and parsed with the setter into a fresh
  \<open>new(T)\<close> (the zero value \<open>zero\<close>); a rejected default panics.
\<close>

definition MustVar :: "bool \<Rightarrow> 'v \<Rightarrow> string \<Rightarrow> 'v ValSetter \<Rightarrow> 'v value_rec outcome" where
  "MustVar isBool zero defaultValue setter =
     (case setter zero defaultValue of
        (Some err, v) \<Rightarrow> Panic (ErrInvalidDefault defaultValue err)
      | (None, v) \<Rightarrow>
          Return \<lparr> value_Value = v, value_Setter = setter, value_IsBool = isBool \<rparr>)"

definition value_Val :: "'v value_rec \<Rightarrow> 'v" where
  "value_Val v = value_Value v"

definition value_Set :: "'v value_rec \<Rightarrow> string \<Rightarrow> error option \<times> 'v value_rec" where
  "value_Set v s =
     (case value_Setter v (value_Value v) s of
        (err, t) \<Rightarrow> (err, v\<lparr> value_Value := t \<rparr>))"

definition value_IsBoolFlag :: "'v value_rec \<Rightarrow> bool" where
  "value_IsBoolFlag v = value_IsBool v"

text \<open>Two stock parsers that need nothing outside: \<open>parseString\<close> and \<open>strconv.ParseBool\<close>.\<close>

definition parseString :: "string ValParser" where
  "parseString s = Inr s"

definition ParseBool :: "bool ValParser" where
  "ParseBool str =
     (if str \<in> {''1'', ''t'', ''T'', ''TRUE'', ''true'', ''True''} then Inr True
      else if str \<in> {''0'', ''f'', ''F'', ''FALSE'', ''false'', ''False''} then Inr False
      else Inl (ErrOther (''strconv.ParseBool: parsing '' @ str @ '': invalid syntax'')))"

definition String :: "string \<Rightarrow> string value_rec" where
  "String defaultValue = Var False defaultValue (set_parser parseString)"

definition Bool :: "bool \<Rightarrow> bool value_rec" where
  "Bool defaultValue = Var True defaultValue (set_parser ParseBool)"

section \<open>Accumulating values: \<open>slice[T, S]\<close>\<close>

text \<open>
  \<open>type slice[T any, S ~[]T] struct { Value *S; Default S; Parse ValParser[T]; written bool }\<close>.
  Here the slice behind \<open>Value\<close> is read as the list of its elements; the section on
  backing arrays below refines this to Go's slice headers and shared arrays.
\<close>

record 'v slice_rec =
  slice_Value :: "'v list"
  slice_Default :: "'v list"
  slice_Parse :: "'v ValParser"
  slice_written :: bool
  slice_IsBool :: bool

text \<open>
  \<open>Slice\<close>: \<open>vcopy := make(S, len(defaultValue)); copy(vcopy, defaultValue)\<close>; the
  fields \<open>Default\<close> and \<open>written\<close> keep their zero values.
\<close>

definition Slice :: "bool \<Rightarrow> 'v list \<Rightarrow> 'v ValParser \<Rightarrow> 'v slice_rec" where
  "Slice isBool defaultValue parse =
     \<lparr> slice_Value = defaultValue, slice_Default = [], slice_Parse = parse,
       slice_written = False, slice_IsBool = isBool \<rparr>"

text \<open>\<open>MustSlice\<close>: every default string is parsed in order; the first failure panics.\<close>

fun parse_defaults :: "'v ValParser \<Rightarrow> string list \<Rightarrow> 'v list outcome" where
  "parse_defaults parse [] = Return []"
| "parse_defaults parse (d # defaults) =
     (case parse d of
        Inl err \<Rightarrow> Panic (ErrInvalidDefault d err)
      | Inr v \<Rightarrow>
          (case parse_defaults parse defaults of
             Return vs \<Rightarrow> Return (v # vs)
           | Exit c \<Rightarrow> Exit c
           | Panic e \<Rightarrow> Panic e))"

definition MustSlice :: "bool \<Rightarrow> string list \<Rightarrow> 'v ValParser \<Rightarrow> 'v slice_rec outcome" where
  "MustSlice isBool defaults parse =
     (case parse_defaults parse defaults of
        Return vcopy \<Rightarrow>
          Return \<lparr> slice_Value = vcopy, slice_Default = [], slice_Parse = parse,
                   slice_written = False, slice_IsBool = isBool \<rparr>
      | Exit c \<Rightarrow> Exit c
      | Panic e \<Rightarrow> Panic e)"

definition slice_Val :: "'v slice_rec \<Rightarrow> 'v list" where
  "slice_Val s = slice_Value s"

text \<open>
  \<open>slice.Set\<close>: the first call truncates the value to \<open>[:0]\<close> and marks the slice as
  written, before the string is parsed; a parse error returns after that; a parsed
  element is appended.
\<close>

definition slice_Set :: "'v slice_rec \<Rightarrow> string \<Rightarrow> error option \<times> 'v slice_rec" where
  "slice_Set f s =
     (let f1 = (if \<not> slice_written f
                then f\<lparr> slice_Value := take 0 (slice_Value f), slice_written := True \<rparr>
                else f)
      in case slice_Parse f1 s of
           Inl err \<Rightarrow> (Some err, f1)
         | Inr v \<Rightarrow> (None, f1\<lparr> slice_Value := slice_Value f1 @ [v] \<rparr>))"

definition slice_IsBoolFlag :: "'v slice_rec \<Rightarrow> bool" where
  "slice_IsBoolFlag s = slice_IsBool s"

definition Strings :: "string list \<Rightarrow> string slice_rec" where
  "Strings defaults = Slice False defaults parseString"

definition Bools :: "bool list \<Rightarrow> bool slice_rec" where
  "Bools defaults = Slice True defaults ParseBool"

text \<open>
  The flag given several times: the \<open>Set\<close> calls in order of occurrence, each on the
  state the previous one left, with the error each call returned.
\<close>

fun slice_Sets :: "'v slice_rec \<Rightarrow> string list \<Rightarrow> error option list \<times> 'v slice_rec" where
  "slice_Sets f [] = ([], f)"
| "slice_Sets f (s # ss) =
     (case slice_Set f s of
        (err, f1) \<Rightarrow> (case slice_Sets f1 ss of (errs, f2) \<Rightarrow> (err # errs, f2)))"

section \<open>The standard flag set behind \<open>Set\<close>\<close>

text \<open>
  A registered flag value is a \<open>Getter\<close>: one of the two implementations of this
  package. \<open>Set\<close> and \<open>IsBoolFlag\<close> dispatch on the implementation.
\<close>

datatype 'v Getter = ValueGetter "'v value_rec" | SliceGetter "'v slice_rec"

fun Getter_Set :: "'v Getter \<Rightarrow> string \<Rightarrow> error option \<times> 'v Getter" where
  "Getter_Set (ValueGetter v) s = (case value_Set v s of (err, v1) \<Rightarrow> (err, ValueGetter v1))"
| "Getter_Set (SliceGetter f) s = (case slice_Set f s of (err, f1) \<Rightarrow> (err, SliceGetter f1))"

fun Getter_IsBoolFlag :: "'v Getter \<Rightarrow> bool" where
  "Getter_IsBoolFlag (ValueGetter v) = value_IsBoolFlag v"
| "Getter_IsBoolFlag (SliceGetter f) = slice_IsBoolFlag f"

text \<open>
  \<open>type Flag = stdflag.Flag\<close>: name, usage and value (the default's string form, used
  for printing only, is left out).
\<close>

record 'v Flag =
  Name :: string
  Usage :: string
  Value :: "'v Getter"

text \<open>
  The state of \<open>flag.FlagSet\<close> of the standard library, which \<open>Set\<close> wraps: the map
  \<open>formal\<close> of the declared flags (an association list read through \<open>map_of\<close>), the
  map \<open>actual\<close> of the flags that have been set (its values are the same \<open>*Flag\<close>
  pointers as in \<open>formal\<close>, so its keys are kept), the arguments left to parse, and
  the error handling policy.
\<close>

record 'v FlagSet =
  parsed :: bool
  actual :: "string list"
  formal :: "(string \<times> 'v Flag) list"
  args :: "string list"
  errorHandling :: ErrorHandling

text \<open>\<open>sortFlags\<close>: the keys of a map, each once, in lexicographical order.\<close>

definition sortFlags :: "string list \<Rightarrow> string list" where
  "sortFlags names = sort (remdups names)"

definition fs_VisitAll :: "'v FlagSet \<Rightarrow> (string \<Rightarrow> 'w \<Rightarrow> 'w) \<Rightarrow> 'w \<Rightarrow> 'w" where
  "fs_VisitAll f fn w = fold fn (sortFlags (map fst (formal f))) w"

definition fs_Visit :: "'v FlagSet \<Rightarrow> (string \<Rightarrow> 'w \<Rightarrow> 'w) \<Rightarrow> 'w \<Rightarrow> 'w" where
  "fs_Visit f fn w = fold fn (sortFlags (actual f)) w"

definition fs_Lookup :: "'v FlagSet \<Rightarrow> string \<Rightarrow> 'v Flag option" where
  "fs_Lookup f name = map_of (formal f) name"

text \<open>
  A flag's \<open>Value.Set\<close> writes through the pointer held in \<open>formal\<close>: the new value
  replaces the old one under the flag's name.
\<close>

definition store_Value :: "'v FlagSet \<Rightarrow> string \<Rightarrow> 'v Flag \<Rightarrow> 'v Getter \<Rightarrow> 'v FlagSet" where
  "store_Value f name flag g =
     f\<lparr> formal := AList.update name (flag\<lparr> Value := g \<rparr>) (formal f) \<rparr>"

text \<open>
  \<open>FlagSet.Set\<close>: an undeclared name is an error; otherwise the flag's own \<open>Set\<close> is
  called, its error returned, and on success the flag is recorded in \<open>actual\<close>.
\<close>

definition fs_Set :: "string \<Rightarrow> string \<Rightarrow> 'v FlagSet \<Rightarrow> error option \<times> 'v FlagSet" where
  "fs_Set name val f =
     (case map_of (formal f) name of
        None \<Rightarrow> (Some (ErrNoSuchFlag name), f)
      | Some flag \<Rightarrow>
          (case Getter_Set (Value flag) val of
             (Some err, g) \<Rightarrow> (Some err, store_Value f name flag g)
           | (None, g) \<Rightarrow>
               (None, (store_Value f name flag g)\<lparr> actual := List.insert name (actual f) \<rparr>)))"

text \<open>
  \<open>FlagSet.Var\<close>: a name that begins with \<open>-\<close>, contains \<open>=\<close> or is already declared
  panics; otherwise the flag is added to \<open>formal\<close>.
\<close>

definition fs_Var :: "'v Getter \<Rightarrow> string \<Rightarrow> string \<Rightarrow> 'v FlagSet \<Rightarrow> 'v FlagSet outcome" where
  "fs_Var val name usage f =
     (if take 1 name = ''-'' then Panic (ErrOther (''flag '' @ name @ '' begins with -''))
      else if CHR ''='' \<in> set name then Panic (ErrOther (''flag '' @ name @ '' contains =''))
      else if map_of (formal f) name \<noteq> None
        then Panic (ErrOther (''flag redefined: '' @ name))
      else Return (f\<lparr> formal :=
             AList.update name \<lparr> Name = name, Usage = usage, Value = val \<rparr> (formal f) \<rparr>))"

text \<open>
  \<open>FlagSet.parseOne\<close>, in three parts. First the token: \<open>name\<close> is the argument
  without its one or two minus signs; an \<open>=\<close> after the first character splits it into
  the name and the value.
\<close>

definition split_name :: "string \<Rightarrow> string \<times> bool \<times> string" where
  "split_name name =
     (if CHR ''='' \<in> set (tl name)
      then (hd name # takeWhile (\<lambda>c. c \<noteq> CHR ''='') (tl name), True,
            tl (dropWhile (\<lambda>c. c \<noteq> CHR ''='') (tl name)))
      else (name, False, []))"

text \<open>
  Then the binding: the flag's \<open>Set\<close> is called with the value; an error is wrapped by
  \<open>failf\<close> and ends the parse, success records the flag in \<open>actual\<close>.
\<close>

definition bind_flag ::
  "'v FlagSet \<Rightarrow> string \<Rightarrow> 'v Flag \<Rightarrow> string \<Rightarrow> (error \<Rightarrow> error) \<Rightarrow> bool \<times> error option \<times> 'v FlagSet"
where
  "bind_flag f name flag val failf =
     (case Getter_Set (Value flag) val of
        (Some err, g) \<Rightarrow> (False, Some (failf err), store_Value f name flag g)
      | (None, g) \<Rightarrow>
          (True, None, (store_Value f name flag g)\<lparr> actual := List.insert name (actual f) \<rparr>))"

definition fs_parseOne :: "'v FlagSet \<Rightarrow> bool \<times> error option \<times> 'v FlagSet" where
  "fs_parseOne f =
     (case args f of
        [] \<Rightarrow> (False, None, f)
      | s # rest \<Rightarrow>
          if length s < 2 \<or> hd s \<noteq> CHR ''-'' then (False, None, f)
          else if s ! 1 = CHR ''-'' \<and> length s = 2 then (False, None, f\<lparr> args := rest \<rparr>)
          else
            let numMinuses = (if s ! 1 = CHR ''-'' then 2 else 1 :: nat);
                name0 = drop numMinuses s
            in if name0 = [] \<or> hd name0 = CHR ''-'' \<or> hd name0 = CHR ''=''
               then (False, Some (ErrBadFlagSyntax s), f)
               else
                 (case split_name name0 of
                    (name, hasValue, val) \<Rightarrow>
                      (case map_of (formal f) name of
                         None \<Rightarrow>
                           if name = ''help'' \<or> name = ''h''
                           then (False, Some ErrHelp, f\<lparr> args := rest \<rparr>)
                           else (False, Some (ErrNotDefined name), f\<lparr> args := rest \<rparr>)
                       | Some flag \<Rightarrow>
                           if Getter_IsBoolFlag (Value flag) then
                             (if hasValue
                              then bind_flag (f\<lparr> args := rest \<rparr>) name flag val
                                     (ErrInvalidBooleanValue val name)
                              else bind_flag (f\<lparr> args := rest \<rparr>) name flag ''true''
                                     (ErrInvalidBooleanFlag name))
                           else if hasValue
                             then bind_flag (f\<lparr> args := rest \<rparr>) name flag val
                                    (ErrInvalidValue val name)
                           else
                             (case rest of
                                [] \<Rightarrow> (False, Some (ErrNeedsArgument name), f\<lparr> args := rest \<rparr>)
                              | val1 # rest1 \<Rightarrow>
                                  bind_flag (f\<lparr> args := rest1 \<rparr>) name flag val1
                                    (ErrInvalidValue val1 name)))))"

text \<open>
  \<open>FlagSet.Parse\<close>: flags are parsed one by one while \<open>parseOne\<close> sees one; the first
  error is handled by the policy (return it; exit with 0 for help and 2 otherwise;
  panic).
\<close>

function fs_parse_loop :: "'v FlagSet \<Rightarrow> error option outcome \<times> 'v FlagSet" where
  "fs_parse_loop f =
     (case fs_parseOne f of
        (seen, err, f1) \<Rightarrow>
          if seen then fs_parse_loop f1
          else (case err of
                  None \<Rightarrow> (Return None, f1)
                | Some e \<Rightarrow>
                    (case errorHandling f1 of
                       ContinueOnError \<Rightarrow> (Return (Some e), f1)
                     | ExitOnError \<Rightarrow> (if e = ErrHelp then Exit 0 else Exit 2, f1)
                     | PanicOnError \<Rightarrow> (Panic e, f1))))"
  by pat_completeness auto
termination
proof (relation "measure (\<lambda>f. length (args f))")
  show "wf (measure (\<lambda>f. length (args f)))"
    by simp
next
  fix f :: "'v FlagSet" and seen err f1 x
  assume "(seen, x) = fs_parseOne f" and "(err, f1) = x" and seen
  then have "fs_parseOne f = (True, err, f1)"
    by simp
  then have "length (args f1) < length (args f)"
    by (auto simp: fs_parseOne_def Let_def bind_flag_def store_Value_def
        split: list.splits if_splits prod.splits option.splits)
  then show "(f1, f) \<in> measure (\<lambda>f. length (args f))"
    by simp
qed

definition fs_Parse :: "string list \<Rightarrow> 'v FlagSet \<Rightarrow> error option outcome \<times> 'v FlagSet" where
  "fs_Parse arguments f = fs_parse_loop (f\<lparr> parsed := True, args := arguments \<rparr>)"

declare fs_parse_loop.simps [simp del]

text \<open>
  The name of the flag in an argument that \<open>parseOne\<close> takes as a flag: the argument
  without its minus signs and without \<open>=\<close> and what follows.
\<close>

definition token_name :: "string \<Rightarrow> string" where
  "token_name s = fst (split_name (drop (if s ! 1 = CHR ''-'' then 2 else 1) s))"

text \<open>
  The flags that the parse of the arguments consumes: the names in the arguments at
  which \<open>parseOne\<close> reports a flag seen, in order.
\<close>

function consumed :: "'v FlagSet \<Rightarrow> string list" where
  "consumed f =
     (case fs_parseOne f of
        (seen, err, f1) \<Rightarrow> if seen then token_name (hd (args f)) # consumed f1 else [])"
  by pat_completeness auto
termination
proof (relation "measure (\<lambda>f. length (args f))")
  show "wf (measure (\<lambda>f. length (args f)))"
    by simp
next
  fix f :: "'v FlagSet" and seen err f1 x
  assume "(seen, x) = fs_parseOne f" and "(err, f1) = x" and seen
  then have "fs_parseOne f = (True, err, f1)"
    by simp
  then have "length (args f1) < length (args f)"
    by (auto simp: fs_parseOne_def Let_def bind_flag_def store_Value_def
        split: list.splits if_splits prod.splits option.splits)
  then show "(f1, f) \<in> measure (\<lambda>f. length (args f))"
    by simp
qed

declare consumed.simps [simp del]

definition consumed_flags :: "string list \<Rightarrow> 'v FlagSet \<Rightarrow> string list" where
  "consumed_flags arguments f = consumed (f\<lparr> parsed := True, args := arguments \<rparr>)"

section \<open>The flag set of this package: \<open>Set\<close>\<close>

text \<open>
  \<open>type Set struct { fs *stdflag.FlagSet; provideMap map[string]Source }\<close>, as it is
  after \<open>init\<close> (which only replaces nil fields by empty ones).
\<close>

record 'v Set =
  fs :: "'v FlagSet"
  provideMap :: "string \<rightharpoonup> Source"

definition NewSet :: "string \<Rightarrow> ErrorHandling \<Rightarrow> 'v Set" where
  "NewSet name eh =
     \<lparr> fs = \<lparr> parsed = False, actual = [], formal = [], args = [], errorHandling = eh \<rparr>,
       provideMap = Map.empty \<rparr>"

definition Add :: "string \<Rightarrow> 'v Getter \<Rightarrow> string \<Rightarrow> 'v Set \<Rightarrow> 'v Set outcome" where
  "Add name val usage s =
     (case fs_Var val name usage (fs s) of
        Return f \<Rightarrow> Return (s\<lparr> fs := f \<rparr>)
      | Exit c \<Rightarrow> Exit c
      | Panic e \<Rightarrow> Panic e)"

text \<open>
  Callbacks (\<open>func(*Flag) error\<close>) and secondary parsers (\<open>type Parser func(*Set) error\<close>)
  are closures: they may read and change the flag set and whatever else they captured.
  The state they run on is the flag set together with that other state \<open>'x\<close>; a
  callback gets the flag by its name.
\<close>

type_synonym ('v, 'x) world = "'v Set \<times> 'x"
type_synonym ('v, 'x) callback = "string \<Rightarrow> ('v, 'x) world \<Rightarrow> error option \<times> ('v, 'x) world"
type_synonym ('v, 'x) Parser = "('v, 'x) world \<Rightarrow> error option \<times> ('v, 'x) world"

text \<open>
  \<open>Set.VisitAll\<close> and \<open>Set.Visit\<close>: the standard walk calls the closure on every flag
  of its list; the closure keeps the first error in \<open>visitErr\<close> and does nothing once
  it is set.
\<close>

definition Set_VisitAll :: "('v, 'x) callback \<Rightarrow> ('v, 'x) Parser" where
  "Set_VisitAll fn w =
     fs_VisitAll (fs (fst w))
       (\<lambda>name (visitErr, w1). if visitErr \<noteq> None then (visitErr, w1) else fn name w1)
       (None, w)"

definition Set_Visit :: "('v, 'x) callback \<Rightarrow> ('v, 'x) Parser" where
  "Set_Visit fn w =
     fs_Visit (fs (fst w))
       (\<lambda>name (visitErr, w1). if visitErr \<noteq> None then (visitErr, w1) else fn name w1)
       (None, w)"

text \<open>
  \<open>Set.VisitRemaining\<close>: the names of the set flags are first collected in the local
  map \<open>visited\<close> by a \<open>Visit\<close>; then \<open>VisitAll\<close> calls \<open>fn\<close> on the flags that are not
  in it.
\<close>

definition Set_VisitRemaining :: "('v, 'x) callback \<Rightarrow> ('v, 'x) Parser" where
  "Set_VisitRemaining fn w =
     (case Set_Visit (\<lambda>name (s, visited, x). (None, (s, insert name visited, x)))
             (fst w, {}, snd w) of
        (_, (s, visited, x)) \<Rightarrow>
          Set_VisitAll (\<lambda>name w1. if name \<in> visited then (None, w1) else fn name w1) (s, x))"

definition Set_Lookup :: "'v Set \<Rightarrow> string \<Rightarrow> 'v Flag option" where
  "Set_Lookup s name = fs_Lookup (fs s) name"

text \<open>\<open>Set.Set(src, name, value)\<close>: the source is recorded only when the flag set accepts.\<close>

definition Set_Set :: "Source \<Rightarrow> string \<Rightarrow> string \<Rightarrow> 'v Set \<Rightarrow> error option \<times> 'v Set" where
  "Set_Set src name val s =
     (case fs_Set name val (fs s) of
        (Some err, f) \<Rightarrow> (Some err, s\<lparr> fs := f \<rparr>)
      | (None, f) \<Rightarrow> (None, s\<lparr> fs := f, provideMap := (provideMap s)(name \<mapsto> src) \<rparr>))"

text \<open>The same call made from a closure, on the flag set it captured.\<close>

definition call_Set :: "Source \<Rightarrow> string \<Rightarrow> string \<Rightarrow> ('v, 'x) Parser" where
  "call_Set src name val w =
     (case Set_Set src name val (fst w) of (err, s) \<Rightarrow> (err, (s, snd w)))"

text \<open>
  \<open>Set.Parse\<close>. After a successful parse of the arguments every declared flag is
  recorded as \<open>SourceDefaultVal\<close>, then every set flag as \<open>SourceFlags\<close>.
\<close>

definition stamp_sources :: "'v Set \<Rightarrow> 'v Set" where
  "stamp_sources s =
     (let m1 = fs_VisitAll (fs s) (\<lambda>name m. m(name \<mapsto> SourceDefaultVal)) (provideMap s);
          m2 = fs_Visit (fs s) (\<lambda>name m. m(name \<mapsto> SourceFlags)) m1
      in s\<lparr> provideMap := m2 \<rparr>)"

text \<open>
  Then the extra parsers run in the order given; the first error is handled by the
  policy of the flag set.
\<close>

fun run_extraParsers ::
  "('v, 'x) Parser list \<Rightarrow> ('v, 'x) world \<Rightarrow> error option outcome \<times> ('v, 'x) world"
where
  "run_extraParsers [] w = (Return None, w)"
| "run_extraParsers (parser # extraParsers) w =
     (case parser w of
        (Some err, w1) \<Rightarrow>
          (case errorHandling (fs (fst w1)) of
             ContinueOnError \<Rightarrow> (Return (Some err), w1)
           | ExitOnError \<Rightarrow> (Exit 2, w1)
           | PanicOnError \<Rightarrow> (Panic err, w1))
      | (None, w1) \<Rightarrow> run_extraParsers extraParsers w1)"

definition Set_Parse ::
  "string list \<Rightarrow> ('v, 'x) Parser list \<Rightarrow> ('v, 'x) world \<Rightarrow> error option outcome \<times> ('v, 'x) world"
where
  "Set_Parse arguments extraParsers w =
     (case fs_Parse arguments (fs (fst w)) of
        (Return None, f) \<Rightarrow>
          run_extraParsers extraParsers (stamp_sources ((fst w)\<lparr> fs := f \<rparr>), snd w)
      | (out, f) \<Rightarrow> (out, ((fst w)\<lparr> fs := f \<rparr>, snd w)))"

section \<open>The environment parser: \<open>env.Parse\<close>\<close>

text \<open>
  \<open>strings.Split(s, sep)\<close> for a separator that is not empty: the pieces between the
  leftmost occurrences of \<open>sep\<close> that do not overlap. (With the empty separator the
  standard function cuts after every UTF-8 sequence; this model then cuts nowhere, and
  \<open>env.Parse\<close> never splits by the empty separator.)
\<close>

function split_from :: "string \<Rightarrow> string \<Rightarrow> string \<Rightarrow> string list" where
  "split_from sep acc [] = [rev acc]"
| "split_from sep acc (c # cs) =
     (if sep \<noteq> [] \<and> take (length sep) (c # cs) = sep
      then rev acc # split_from sep [] (drop (length sep) (c # cs))
      else split_from sep (c # acc) cs)"
  by pat_completeness auto
termination
  by (relation "measure (\<lambda>(sep, acc, s). length s)") auto

definition Split :: "string \<Rightarrow> string \<Rightarrow> string list" where
  "Split s sep = split_from sep [] s"

text \<open>
  The options of \<open>env.Parse\<close>. A \<open>Mapper\<close> gives the variable's name and the list
  splitter (\<open>NoSplit\<close> is the empty string); a \<open>LookupFunc\<close> gives the value if the
  variable is found. \<open>envFile\<close> is a pointer to the path (\<open>*string\<close>), nil without an
  env file: the pointer may lead to a flag's value or to a variable of the caller, and
  what it holds is read when it is dereferenced, so it is the function that reads the
  string from the state of that moment.
\<close>

record ('v, 'x) options =
  prefix :: string
  mapper :: "string \<Rightarrow> string \<times> string"
  lookupFunc :: "string \<Rightarrow> string option"
  envFile :: "(('v, 'x) world \<Rightarrow> string) option"
  envFileOptional :: bool

text \<open>The \<open>Option\<close> functions; \<open>WithStaticDotEnv\<close> points to a copy of its argument.\<close>

definition WithLookupFunc ::
  "(string \<Rightarrow> string option) \<Rightarrow> ('v, 'x) options \<Rightarrow> ('v, 'x) options" where
  "WithLookupFunc fn opts = opts\<lparr> lookupFunc := fn \<rparr>"

definition WithDotEnv ::
  "(('v, 'x) world \<Rightarrow> string) \<Rightarrow> bool \<Rightarrow> ('v, 'x) options \<Rightarrow> ('v, 'x) options" where
  "WithDotEnv path optional opts = opts\<lparr> envFile := Some path, envFileOptional := optional \<rparr>"

definition WithStaticDotEnv :: "string \<Rightarrow> bool \<Rightarrow> ('v, 'x) options \<Rightarrow> ('v, 'x) options" where
  "WithStaticDotEnv path optional = WithDotEnv (\<lambda>w. path) optional"

definition WithMapper ::
  "(string \<Rightarrow> string \<times> string) \<Rightarrow> ('v, 'x) options \<Rightarrow> ('v, 'x) options" where
  "WithMapper fn opts = opts\<lparr> mapper := fn \<rparr>"

definition WithPrefix :: "string \<Rightarrow> ('v, 'x) options \<Rightarrow> ('v, 'x) options" where
  "WithPrefix s opts = opts\<lparr> prefix := s @ ''_'' \<rparr>"

text \<open>
  The callback of \<open>env.Parse\<close> on one flag: the variable is looked up in the environment
  and then in the file's data; a value that is found is set on this flag, whole or
  piece by piece, and the first error of \<open>Set\<close> is returned wrapped. The label of a
  value from the file holds the path that the pointer gives when the callback runs.
\<close>

fun set_each :: "Source \<Rightarrow> string \<Rightarrow> string list \<Rightarrow> ('v, 'x) Parser" where
  "set_each src flagName [] w = (None, w)"
| "set_each src flagName (val # vals) w =
     (case call_Set src flagName val w of
        (Some err, w1) \<Rightarrow> (Some (ErrEnv err), w1)
      | (None, w1) \<Rightarrow> set_each src flagName vals w1)"

definition env_visit :: "('v, 'x) options \<Rightarrow> (string \<rightharpoonup> string) \<Rightarrow> ('v, 'x) callback" where
  "env_visit opts fileData flagName w =
     (case mapper opts (prefix opts @ flagName) of
        (name, splitValBy) \<Rightarrow>
          (let src0 = ''env: '' @ name;
               found0 = lookupFunc opts name;
               found = (if found0 = None then fileData name else found0);
               src = (case envFile opts of
                        Some path \<Rightarrow>
                          if found0 = None then ''envfile['' @ path w @ '']: '' @ name else src0
                      | None \<Rightarrow> src0)
           in case found of
                None \<Rightarrow> (None, w)
              | Some val \<Rightarrow>
                  if splitValBy \<noteq> []
                  then set_each src flagName (Split val splitValBy) w
                  else set_each src flagName [val] w))"

text \<open>
  The parser that \<open>env.Parse\<close> returns, for the options as they are after the
  \<open>Option\<close> functions. \<open>maybeParseEnvFile\<close> reads the file system and is a parameter
  (\<open>readEnvFile path ignoreMissing\<close>, with the empty map for a tolerated missing
  file). The path is the one the pointer gives when the parser runs, so a parser or the
  arguments before may have set it; an error of the read is returned wrapped before any
  flag is visited.
\<close>

definition env_parser ::
  "(string \<Rightarrow> bool \<Rightarrow> error + (string \<rightharpoonup> string)) \<Rightarrow> ('v, 'x) options \<Rightarrow> ('v, 'x) Parser"
where
  "env_parser readEnvFile opts w =
     (case envFile opts of
        None \<Rightarrow> Set_VisitRemaining (env_visit opts Map.empty) w
      | Some path \<Rightarrow>
          (case readEnvFile (path w) (envFileOptional opts) of
             Inl err \<Rightarrow> (Some (ErrEnvFile (path w) err), w)
           | Inr fileData \<Rightarrow> Set_VisitRemaining (env_visit opts fileData) w))"

text \<open>
  \<open>env.Parse(opts...)\<close>: the options start from the defaults (no prefix, the default
  mapper without splitting, \<open>os.LookupEnv\<close>, no env file) and the \<open>Option\<close> functions
  are applied in order. The default mapper (a regular expression and \<open>strings.ToUpper\<close>)
  and the process environment are parameters.
\<close>

definition env_Parse ::
  "(string \<Rightarrow> string \<times> string) \<Rightarrow> (string \<Rightarrow> string option) \<Rightarrow>
   (string \<Rightarrow> bool \<Rightarrow> error + (string \<rightharpoonup> string)) \<Rightarrow>
   (('v, 'x) options \<Rightarrow> ('v, 'x) options) list \<Rightarrow> ('v, 'x) Parser"
where
  "env_Parse defaultMapper osLookupEnv readEnvFile opts =
     env_parser readEnvFile
       (fold (\<lambda>opt options. opt options) opts
          \<lparr> prefix = [], mapper = defaultMapper, lookupFunc = osLookupEnv,
            envFile = None, envFileOptional = False \<rparr>)"

section \<open>Walks that stop at the first error\<close>

text \<open>
  What the closure with \<open>visitErr\<close> amounts to: the steps run in order on the state the
  previous one left, up to and including the first that returns an error.
\<close>

fun walk :: "'a list \<Rightarrow> ('a \<Rightarrow> 'w \<Rightarrow> error option \<times> 'w) \<Rightarrow> 'w \<Rightarrow> error option \<times> 'w" where
  "walk [] fn w = (None, w)"
| "walk (a # as) fn w =
     (case fn a w of
        (Some err, w1) \<Rightarrow> (Some err, w1)
      | (None, w1) \<Rightarrow> walk as fn w1)"

text \<open>
  Observation, as the package's tests do it: the callback (or parser) is wrapped so that
  every invocation appends its argument and the error it returned to a log kept in the
  caller's state.
\<close>

definition logged ::
  "('a \<Rightarrow> 's \<times> 'x \<Rightarrow> error option \<times> 's \<times> 'x) \<Rightarrow>
   'a \<Rightarrow> 's \<times> 'x \<times> ('a \<times> error option) list \<Rightarrow>
   error option \<times> 's \<times> 'x \<times> ('a \<times> error option) list"
where
  "logged fn a w =
     (case w of (s, x, log) \<Rightarrow>
        (case fn a (s, x) of (err, (s1, x1)) \<Rightarrow> (err, (s1, x1, log @ [(a, err)]))))"

text \<open>
  The log of a walk over \<open>names\<close> that returned \<open>r\<close>: one entry per name, in order,
  each with a nil error, until the names are used up (and \<open>r\<close> is nil) or an entry has an
  error, which is \<open>r\<close> and ends the log.
\<close>

fun stops_at_first_error :: "'a list \<Rightarrow> error option \<Rightarrow> ('a \<times> error option) list \<Rightarrow> bool" where
  "stops_at_first_error [] r log = (r = None \<and> log = [])"
| "stops_at_first_error (n # ns) r [] = False"
| "stops_at_first_error (n # ns) r (entry # log) =
     (fst entry = n \<and>
      (case snd entry of
         Some err \<Rightarrow> r = Some err \<and> log = []
       | None \<Rightarrow> stops_at_first_error ns r log))"

definition visit_log ::
  "(('a \<Rightarrow> 's \<times> 'x \<times> ('a \<times> error option) list \<Rightarrow> error option \<times> 's \<times> 'x \<times> ('a \<times> error option) list)
     \<Rightarrow> 's \<times> 'x \<times> ('a \<times> error option) list \<Rightarrow> error option \<times> 's \<times> 'x \<times> ('a \<times> error option) list)
   \<Rightarrow> ('a \<Rightarrow> 's \<times> 'x \<Rightarrow> error option \<times> 's \<times> 'x) \<Rightarrow> 's \<times> 'x \<Rightarrow> ('a \<times> error option) list"
where
  "visit_log visit fn w = snd (snd (snd (visit (logged fn) (fst w, snd w, []))))"

fun trace :: "'a list \<Rightarrow> ('a \<Rightarrow> 'w \<Rightarrow> error option \<times> 'w) \<Rightarrow> 'w \<Rightarrow> ('a \<times> error option) list" where
  "trace [] fn w = []"
| "trace (a # as) fn w =
     (case fn a w of
        (Some err, w1) \<Rightarrow> [(a, Some err)]
      | (None, w1) \<Rightarrow> (a, None) # trace as fn w1)"

text \<open>What the policy makes of an error of an extra parser.\<close>

definition handle_error :: "ErrorHandling \<Rightarrow> error \<Rightarrow> error option outcome" where
  "handle_error eh err =
     (case eh of
        ContinueOnError \<Rightarrow> Return (Some err)
      | ExitOnError \<Rightarrow> Exit 2
      | PanicOnError \<Rightarrow> Panic err)"

text \<open>
  The extra parsers observed: parser number \<open>i\<close> logs \<open>i\<close> and the error it returned
  each time it is invoked.
\<close>

definition logged_parsers ::
  "('v, 'x) Parser list \<Rightarrow> ('v, 'x \<times> (nat \<times> error option) list) Parser list" where
  "logged_parsers ps = map (logged (\<lambda>i. ps ! i)) [0..<length ps]"

definition parser_log ::
  "string list \<Rightarrow> ('v, 'x) Parser list \<Rightarrow> ('v, 'x) world \<Rightarrow> (nat \<times> error option) list" where
  "parser_log arguments ps w =
     snd (snd (snd (Set_Parse arguments (logged_parsers ps) (fst w, snd w, []))))"

section \<open>Passes that keep to \<open>VisitRemaining\<close>\<close>

text \<open>
  A callback keeps to its flag when its only way to change the flag set is
  \<open>Set.Set\<close> on the flag it visits: for the flag set, an invocation is some number of
  such calls (with any source and value, accepted or not). What else the callback does
  to the state it captured, local variables included, is free.
\<close>

definition set_own :: "string \<Rightarrow> 'v Set \<Rightarrow> 'v Set \<Rightarrow> bool" where
  "set_own name s s1 \<longleftrightarrow> (\<exists>src val. s1 = snd (Set_Set src name val s))"

definition sets_own_flag_only :: "('v, 'x) callback \<Rightarrow> bool" where
  "sets_own_flag_only cb \<longleftrightarrow>
     (\<forall>name w. rtranclp (set_own name) (fst w) (fst (snd (cb name w))))"

text \<open>
  What a \<open>VisitRemaining\<close> walk with such a callback does to the flag set: the flags
  that are declared and not set when the walk begins are visited in lexicographic
  order, each visit is some number of \<open>Set.Set\<close> calls on the visited flag, and the
  walk may end after any visit.
\<close>

inductive walk_sets :: "string list \<Rightarrow> 'v Set \<Rightarrow> 'v Set \<Rightarrow> bool" where
  walk_end: "walk_sets names s s"
| walk_visit:
    "rtranclp (set_own name) s s1 \<Longrightarrow> walk_sets names s1 s2 \<Longrightarrow> walk_sets (name # names) s s2"

definition remaining_walk :: "'v Set \<Rightarrow> 'v Set \<Rightarrow> bool" where
  "remaining_walk s s1 \<longleftrightarrow>
     walk_sets (sorted_list_of_set (fst ` set (formal (fs s)) - set (actual (fs s)))) s s1"

text \<open>
  A secondary pass that discovers flags only through \<open>VisitRemaining\<close>: whatever the
  state, what it does to the flag set is what some number of such walks do, one after
  the other (none when the pass returns before it walks). The walks may run on any
  state of the pass's own, and the pass may do anything to the state it captured.
\<close>

definition remaining_pass :: "('v, 'x) Parser \<Rightarrow> bool" where
  "remaining_pass p \<longleftrightarrow> (\<forall>w. rtranclp remaining_walk (fst w) (fst (snd (p w))))"

text \<open>
  What the passes keep: the declared names \<open>keys\<close>, the flags \<open>A\<close> set on the command
  line still set and recorded as \<open>SourceFlags\<close>, and an entry for every declared flag.
\<close>

definition provenance_kept :: "string list \<Rightarrow> string set \<Rightarrow> 'v Set \<Rightarrow> bool" where
  "provenance_kept keys A s \<longleftrightarrow>
     map fst (formal (fs s)) = keys
   \<and> A \<subseteq> set (actual (fs s))
   \<and> (\<forall>name \<in> A. provideMap s name = Some SourceFlags)
   \<and> (\<forall>name \<in> set keys. provideMap s name \<noteq> None)"

section \<open>Slices over shared backing arrays\<close>

text \<open>
  Go's slices are headers (array, offset, length, capacity) over backing arrays that
  several headers may share. The memory is the backing arrays by address, with the next
  address that \<open>make\<close> or a growing \<open>append\<close> will use.
\<close>

record 'v heap =
  arrays :: "nat \<Rightarrow> 'v list"
  fresh :: nat

record hdr =
  ptr :: nat
  off :: nat
  len :: nat
  cap :: nat

text \<open>The elements of a slice.\<close>

definition read_h :: "'v heap \<Rightarrow> hdr \<Rightarrow> 'v list" where
  "read_h h s = take (len s) (drop (off s) (arrays h (ptr s)))"

text \<open>\<open>make(S, n)\<close>: a new array of \<open>n\<close> zero values.\<close>

definition make_h :: "'v \<Rightarrow> nat \<Rightarrow> 'v heap \<Rightarrow> hdr \<times> 'v heap" where
  "make_h zero n h =
     (\<lparr> ptr = fresh h, off = 0, len = n, cap = n \<rparr>,
      h\<lparr> arrays := (arrays h)(fresh h := replicate n zero), fresh := Suc (fresh h) \<rparr>)"

text \<open>\<open>copy(dst, src)\<close>: the first \<open>min(len(dst), len(src))\<close> elements of \<open>src\<close> are written over those of \<open>dst\<close>.\<close>

definition copy_h :: "hdr \<Rightarrow> hdr \<Rightarrow> 'v heap \<Rightarrow> 'v heap" where
  "copy_h dst src h =
     (let n = min (len dst) (len src);
          a = arrays h (ptr dst)
      in h\<lparr> arrays := (arrays h)(ptr dst :=
             take (off dst) a @ take n (read_h h src) @ drop (off dst + n) a) \<rparr>)"

text \<open>
  \<open>append(s, v)\<close>: within the capacity the element is written into the backing array
  of \<open>s\<close>; otherwise the elements move to a new array, whose capacity the runtime
  chooses (\<open>grow\<close>, at least the length needed).
\<close>

definition append_h :: "(nat \<Rightarrow> nat) \<Rightarrow> 'v \<Rightarrow> 'v heap \<Rightarrow> hdr \<Rightarrow> 'v \<Rightarrow> hdr \<times> 'v heap" where
  "append_h grow zero h s v =
     (if len s < cap s
      then (s\<lparr> len := len s + 1 \<rparr>,
            h\<lparr> arrays := (arrays h)(ptr s := (arrays h (ptr s))[off s + len s := v]) \<rparr>)
      else
        (let c = max (len s + 1) (grow (cap s))
         in (\<lparr> ptr = fresh h, off = 0, len = len s + 1, cap = c \<rparr>,
             h\<lparr> arrays := (arrays h)(fresh h :=
                    read_h h s @ [v] @ replicate (c - (len s + 1)) zero),
                fresh := Suc (fresh h) \<rparr>)))"

text \<open>
  The slice flag with its value as a header: \<open>Slice\<close> makes the copy, \<open>Set\<close> truncates
  the header on the first call and appends.
\<close>

record 'v slice_h =
  h_Value :: hdr
  h_Parse :: "'v ValParser"
  h_written :: bool
  h_IsBool :: bool

definition Slice_h :: "'v \<Rightarrow> bool \<Rightarrow> hdr \<Rightarrow> 'v ValParser \<Rightarrow> 'v heap \<Rightarrow> 'v slice_h \<times> 'v heap" where
  "Slice_h zero isBool defaultValue parse h =
     (case make_h zero (len defaultValue) h of
        (vcopy, h1) \<Rightarrow>
          (\<lparr> h_Value = vcopy, h_Parse = parse, h_written = False, h_IsBool = isBool \<rparr>,
           copy_h vcopy defaultValue h1))"

definition slice_Set_h ::
  "(nat \<Rightarrow> nat) \<Rightarrow> 'v \<Rightarrow> string \<Rightarrow> 'v slice_h \<times> 'v heap \<Rightarrow> error option \<times> 'v slice_h \<times> 'v heap"
where
  "slice_Set_h grow zero s fh =
     (case fh of (f, h) \<Rightarrow>
        (let f1 = (if \<not> h_written f
                   then f\<lparr> h_Value := (h_Value f)\<lparr> len := 0 \<rparr>, h_written := True \<rparr>
                   else f)
         in case h_Parse f1 s of
              Inl err \<Rightarrow> (Some err, f1, h)
            | Inr v \<Rightarrow>
                (case append_h grow zero h (h_Value f1) v of
                   (s1, h1) \<Rightarrow> (None, f1\<lparr> h_Value := s1 \<rparr>, h1))))"

text \<open>The flag as the list-valued model sees it.\<close>

definition abs_slice :: "'v heap \<Rightarrow> 'v slice_h \<Rightarrow> 'v slice_rec" where
  "abs_slice h f =
     \<lparr> slice_Value = read_h h (h_Value f), slice_Default = [], slice_Parse = h_Parse f,
       slice_written = h_written f, slice_IsBool = h_IsBool f \<rparr>"

text \<open>
  What happens after the declaration: the flag is set with a string, or the caller
  stores a value into an element of an array (its own arrays are those that existed
  before the declaration).
\<close>

datatype 'v step = SetFlag string | CallerStore nat nat 'v

definition caller_store :: "nat \<Rightarrow> nat \<Rightarrow> 'v \<Rightarrow> 'v heap \<Rightarrow> 'v heap" where
  "caller_store a i v h = h\<lparr> arrays := (arrays h)(a := (arrays h a)[i := v]) \<rparr>"

fun run_steps ::
  "(nat \<Rightarrow> nat) \<Rightarrow> 'v \<Rightarrow> 'v step list \<Rightarrow> 'v slice_h \<times> 'v heap \<Rightarrow> 'v slice_h \<times> 'v heap" where
  "run_steps grow zero [] fh = fh"
| "run_steps grow zero (SetFlag s # steps) fh =
     run_steps grow zero steps (snd (slice_Set_h grow zero s fh))"
| "run_steps grow zero (CallerStore a i v # steps) fh =
     run_steps grow zero steps (fst fh, caller_store a i v (snd fh))"

fun set_strings :: "'v step list \<Rightarrow> string list" where
  "set_strings [] = []"
| "set_strings (SetFlag s # steps) = s # set_strings steps"
| "set_strings (CallerStore a i v # steps) = set_strings steps"

fun caller_stores :: "'v step list \<Rightarrow> 'v heap \<Rightarrow> 'v heap" where
  "caller_stores [] h = h"
| "caller_stores (SetFlag s # steps) h = caller_stores steps h"
| "caller_stores (CallerStore a i v # steps) h = caller_stores steps (caller_store a i v h)"

fun stores_below :: "nat \<Rightarrow> 'v step list \<Rightarrow> bool" where
  "stores_below n [] = True"
| "stores_below n (SetFlag s # steps) = stores_below n steps"
| "stores_below n (CallerStore a i v # steps) = (a < n \<and> stores_below n steps)"

text \<open>A header is a slice of an allocated array.\<close>

definition hdr_ok :: "'v heap \<Rightarrow> hdr \<Rightarrow> bool" where
  "hdr_ok h s \<longleftrightarrow>
     ptr s < fresh h \<and> len s \<le> cap s \<and> off s + cap s \<le> length (arrays h (ptr s))"

text \<open>The flag's value lies in an array made at or after the declaration.\<close>

definition owned :: "nat \<Rightarrow> 'v heap \<Rightarrow> 'v slice_h \<Rightarrow> bool" where
  "owned n h f \<longleftrightarrow> n \<le> ptr (h_Value f) \<and> hdr_ok h (h_Value f)"

section \<open>The flag sets of the tests\<close>

text \<open>The walk tests' flag set: \<open>a\<close>, \<open>b\<close>, \<open>c\<close>, \<open>d\<close> declared, \<open>b\<close> and \<open>c\<close> set.\<close>

definition walks_set :: "string Set" where
  "walks_set =
     \<lparr> fs = \<lparr> parsed = True, actual = [''c'', ''b''],
              formal = [(''a'', \<lparr> Name = ''a'', Usage = ''default'', Value = ValueGetter (String ''0'') \<rparr>),
                        (''b'', \<lparr> Name = ''b'', Usage = ''set from cli'', Value = ValueGetter (String ''1'') \<rparr>),
                        (''c'', \<lparr> Name = ''c'', Usage = ''set manually'', Value = ValueGetter (String ''2'') \<rparr>),
                        (''d'', \<lparr> Name = ''d'', Usage = ''default'', Value = ValueGetter (String ''0'') \<rparr>)],
              args = [], errorHandling = ContinueOnError \<rparr>,
       provideMap = [''a'' \<mapsto> SourceDefaultVal, ''b'' \<mapsto> SourceFlags, ''c'' \<mapsto> [],
                     ''d'' \<mapsto> SourceDefaultVal] \<rparr>"

definition sentinel_at :: "string set \<Rightarrow> (string, unit) callback" where
  "sentinel_at names name w = (if name \<in> names then Some (ErrOther ''sentinel'') else None, w)"

text \<open>
  A callback that, when it visits the flag \<open>at\<close>, sets the flag \<open>target\<close> (and ignores
  the error of that \<open>Set\<close>, as the parse tests' parser does).
\<close>

definition set_when :: "string \<Rightarrow> string \<Rightarrow> (string, unit) callback" where
  "set_when at target name w =
     (if name = at then (None, snd (call_Set ''callback'' target ''9'' w)) else (None, w))"

text \<open>The parse tests' parsers: one that only walks, one whose callback fails.\<close>

definition goodParser :: "('v, 'x) Parser" where
  "goodParser w = Set_VisitRemaining (\<lambda>name w1. (None, w1)) w"

definition faultyParser :: "('v, 'x) Parser" where
  "faultyParser w = Set_VisitRemaining (\<lambda>name w1. (Some (ErrOther ''sentinel''), w1)) w"

definition one_flag_set :: "ErrorHandling \<Rightarrow> string Set" where
  "one_flag_set eh =
     \<lparr> fs = \<lparr> parsed = False, actual = [],
              formal = [(''a'', \<lparr> Name = ''a'', Usage = [], Value = ValueGetter (String ''0'') \<rparr>)],
              args = [], errorHandling = eh \<rparr>,
       provideMap = Map.empty \<rparr>"

text \<open>The parse tests' flag set before \<open>Parse\<close>: four flags declared, none set.\<close>

definition declared_set :: "string Set" where
  "declared_set =
     \<lparr> fs = \<lparr> parsed = False, actual = [],
              formal = [(''a'', \<lparr> Name = ''a'', Usage = ''default'', Value = ValueGetter (String ''0'') \<rparr>),
                        (''b'', \<lparr> Name = ''b'', Usage = ''cli args'', Value = ValueGetter (String ''0'') \<rparr>),
                        (''c'', \<lparr> Name = ''c'', Usage = ''parser 1'', Value = ValueGetter (String ''0'') \<rparr>),
                        (''d'', \<lparr> Name = ''d'', Usage = ''parser 2'', Value = ValueGetter (String ''0'') \<rparr>)],
              args = [], errorHandling = ContinueOnError \<rparr>,
       provideMap = Map.empty \<rparr>"

text \<open>
  The pointer that \<open>Add\<close> returns for a string flag, as a reader of the state: what
  \<open>value.Val()\<close> of the flag \<open>name\<close> points to.
\<close>

definition flag_string :: "string \<Rightarrow> (string, 'x) world \<Rightarrow> string" where
  "flag_string name w =
     (case Set_Lookup (fst w) name of
        Some flag \<Rightarrow> (case Value flag of ValueGetter v \<Rightarrow> value_Val v | SliceGetter f \<Rightarrow> [])
      | None \<Rightarrow> [])"

text \<open>
  A run after the env test, with its string flags: \<open>a1\<close> to \<open>a4\<close> with the default
  \<open>a\<close>, the prefix \<open>app\<close>, and the path of the env file bound to the flag \<open>a1\<close>
  (\<open>env.WithDotEnv(a1, false)\<close>), which the arguments set. Here the environment has
  \<open>APP_A2\<close> and also \<open>APP_A1\<close> (so that the env pass would match the flag of the
  command line), the file \<open>testdata/.env\<close> has \<open>APP_A2\<close> and \<open>APP_A3\<close>, no other file
  exists, and the mapper is the test's upper-casing on these four names.
\<close>

definition env_test_set :: "string Set" where
  "env_test_set =
     \<lparr> fs = \<lparr> parsed = False, actual = [],
              formal = [(''a1'', \<lparr> Name = ''a1'', Usage = [], Value = ValueGetter (String ''a'') \<rparr>),
                        (''a2'', \<lparr> Name = ''a2'', Usage = [], Value = ValueGetter (String ''a'') \<rparr>),
                        (''a3'', \<lparr> Name = ''a3'', Usage = [], Value = ValueGetter (String ''a'') \<rparr>),
                        (''a4'', \<lparr> Name = ''a4'', Usage = [], Value = ValueGetter (String ''a'') \<rparr>)],
              args = [], errorHandling = ContinueOnError \<rparr>,
       provideMap = Map.empty \<rparr>"

definition env_test_lookuper :: "string \<Rightarrow> string option" where
  "env_test_lookuper = [''APP_A1'' \<mapsto> ''other'', ''APP_A2'' \<mapsto> ''env'']"

definition env_test_files :: "string \<Rightarrow> bool \<Rightarrow> error + (string \<rightharpoonup> string)" where
  "env_test_files path ignoreMissing =
     (if path = ''testdata/.env'' then Inr [''APP_A2'' \<mapsto> ''file2'', ''APP_A3'' \<mapsto> ''file'']
      else Inl (ErrOther (''open '' @ path @ '': no such file or directory'')))"

definition env_test_mapper :: "string \<Rightarrow> string \<times> string" where
  "env_test_mapper flagName =
     (case map_of [(''app_a1'', ''APP_A1''), (''app_a2'', ''APP_A2''),
                   (''app_a3'', ''APP_A3''), (''app_a4'', ''APP_A4'')] flagName of
        Some envName \<Rightarrow> (envName, [])
      | None \<Rightarrow> (flagName, []))"

definition env_test_parser :: "(string, 'x) Parser" where
  "env_test_parser =
     env_Parse (\<lambda>flagName. (flagName, [])) Map.empty env_test_files
       [WithPrefix ''app'', WithLookupFunc env_test_lookuper,
        WithDotEnv (flag_string ''a1'') False, WithMapper env_test_mapper]"

text \<open>
  The parse tests' parser: it walks the remaining flags, notes each in its local
  \<open>seen\<close>, sets the flag \<open>flagToSet\<close> when it visits it (the error of that \<open>Set\<close> is
  dropped), and after a walk without error appends its id and \<open>seen\<close> to \<open>out\<close>.
\<close>

definition testParser :: "string \<Rightarrow> string \<Rightarrow> (string, (string \<times> string list) list) Parser" where
  "testParser parserID flagToSet w =
     (case Set_VisitRemaining
             (\<lambda>name (s, seen, out).
                (None, (if name = flagToSet then snd (Set_Set parserID name ''42'' s) else s,
                        seen @ [name], out)))
             (fst w, [], snd w) of
        (Some err, (s, seen, out)) \<Rightarrow> (Some err, (s, out))
      | (None, (s, seen, out)) \<Rightarrow> (None, (s, out @ [(parserID, seen)])))"

text \<open>The parse tests' flag set with \<open>c\<close> set through \<open>Set.Set\<close> before \<open>Parse\<close>.\<close>

definition preset_set :: "string Set" where
  "preset_set = snd (Set_Set ''env: C'' ''c'' ''7'' declared_set)"

text \<open>A \<open>MustSlice\<close> declaration: booleans from the default strings \<open>true\<close>, \<open>false\<close>.\<close>

definition must_bools :: "bool slice_rec outcome" where
  "must_bools = MustSlice True [''true'', ''false''] ParseBool"

text \<open>The clobber test: the caller's array \<open>a, b, c\<close> at address 0, and its slice.\<close>

definition caller_heap :: "string heap" where
  "caller_heap = \<lparr> arrays = (\<lambda>a. [])(0 := [''a'', ''b'', ''c'']), fresh = 1 \<rparr>"

definition caller_slice :: hdr where
  "caller_slice = \<lparr> ptr = 0, off = 0, len = 3, cap = 3 \<rparr>"

text \<open>The slice scenario's flag set: the string list flag \<open>c\<close> with the default \<open>x, y\<close>.\<close>

definition slice_flag_set :: "string Set" where
  "slice_flag_set =
     \<lparr> fs = \<lparr> parsed = False, actual = [],
              formal = [(''c'', \<lparr> Name = ''c'', Usage = [],
                                 Value = SliceGetter (Strings [''x'', ''y'']) \<rparr>)],
              args = [], errorHandling = ContinueOnError \<rparr>,
       provideMap = Map.empty \<rparr>"

section \<open>Properties of the value boxes\<close>

lemma set_parser_error: "parse s = Inl err \<Longrightarrow> set_parser parse t s = (Some err, t)"
  by (simp add: set_parser_def)

lemma set_parser_ok: "parse s = Inr v \<Longrightarrow> set_parser parse t s = (None, v)"
  by (simp add: set_parser_def)

lemma slice_Set_ok:
  "slice_Parse f s = Inr v \<Longrightarrow>
   slice_Set f s =
     (None, f\<lparr> slice_Value := (if slice_written f then slice_Value f else []) @ [v],
               slice_written := True \<rparr>)"
  by (simp add: slice_Set_def Let_def)

lemma slice_Set_error:
  "slice_Parse f s = Inl err \<Longrightarrow>
   slice_Set f s =
     (Some err, f\<lparr> slice_Value := (if slice_written f then slice_Value f else []),
                   slice_written := True \<rparr>)"
  by (simp add: slice_Set_def Let_def)

lemma slice_Set_Parse: "slice_Parse (snd (slice_Set f s)) = slice_Parse f"
  by (simp add: slice_Set_def Let_def split: sum.split)

text \<open>
  Every string parses: the calls all return nil, and the value is the parsed elements in
  order, after the old value when the slice had been written before and alone otherwise.
\<close>

lemma slice_Sets_all_ok:
  "map (slice_Parse f) raws = map Inr vs \<Longrightarrow>
   slice_Sets f raws =
     (map (\<lambda>_. None) raws,
      if raws = [] then f
      else f\<lparr> slice_Value := (if slice_written f then slice_Value f else []) @ vs,
             slice_written := True \<rparr>)"
proof (induction raws arbitrary: f vs)
  case Nil
  then show ?case by simp
next
  case (Cons s raws)
  from Cons.prems obtain v vs' where vs: "vs = v # vs'" and v: "slice_Parse f s = Inr v"
    and rest: "map (slice_Parse f) raws = map Inr vs'"
    by (cases vs) auto
  let ?f1 = "f\<lparr> slice_Value := (if slice_written f then slice_Value f else []) @ [v],
                slice_written := True \<rparr>"
  have step: "slice_Set f s = (None, ?f1)"
    using v by (rule slice_Set_ok)
  have "map (slice_Parse ?f1) raws = map Inr vs'"
    using rest by simp
  from Cons.IH [OF this] show ?case
    using step vs rest by (cases "raws = []") simp_all
qed

lemma parse_defaults_Return:
  "parse_defaults parse defaults = Return vs \<longleftrightarrow> map parse defaults = map Inr vs"
proof (induction defaults arbitrary: vs)
  case Nil
  show ?case by auto
next
  case (Cons d defaults)
  show ?case
  proof (cases "parse d")
    case (Inl err)
    then show ?thesis by auto
  next
    case (Inr v)
    show ?thesis
    proof (cases "parse_defaults parse defaults")
      case (Return ws)
      with Inr Cons.IH [of ws] Cons.IH [of "tl vs"] show ?thesis
        by (cases vs) auto
    next
      case (Exit c)
      with Inr Cons.IH [of "tl vs"] show ?thesis by (cases vs) auto
    next
      case (Panic e)
      with Inr Cons.IH [of "tl vs"] show ?thesis by (cases vs) auto
    qed
  qed
qed

lemma MustSlice_parses:
  "map parse defaults = map Inr ds \<Longrightarrow> \<exists>f. MustSlice isBool defaults parse = Return f"
  by (simp add: MustSlice_def parse_defaults_Return [symmetric])

lemma MustSlice_Return:
  "MustSlice isBool defaults parse = Return f \<Longrightarrow>
   \<exists>ds. map parse defaults = map Inr ds \<and> f = Slice isBool ds parse"
  by (auto simp: MustSlice_def Slice_def parse_defaults_Return split: outcome.splits)

text \<open>
  C5. A slice flag declared with \<open>Slice\<close> and any default sequence, then given the
  strings \<open>raws\<close> in order, all of which parse (to \<open>vs\<close>): every \<open>Set\<close> returns nil;
  with at least one string the value is exactly the parsed elements in order of
  occurrence (so it has as many elements as strings were given, and nothing of the
  default is left); with no string the value is the default sequence. The same holds
  for \<open>MustSlice\<close>, whose default sequence is the parsed default strings \<open>ds\<close>: it
  returns a flag exactly when every default string parses, and the value of that flag
  is \<open>ds\<close> with no string given and \<open>vs\<close> otherwise.
\<close>

theorem slice_first_write_replaces_default:
  assumes "map parse raws = map Inr vs"
  shows "fst (slice_Sets (Slice isBool defaults parse) raws) = map (\<lambda>_. None) raws
       \<and> slice_Val (snd (slice_Sets (Slice isBool defaults parse) raws))
           = (if raws = [] then defaults else vs)
       \<and> length vs = length raws
       \<and> (\<forall>ds. map parse defaultStrings = map Inr ds \<longrightarrow>
             (\<exists>f. MustSlice isBool defaultStrings parse = Return f))
       \<and> (\<forall>f. MustSlice isBool defaultStrings parse = Return f \<longrightarrow>
             (\<exists>ds. map parse defaultStrings = map Inr ds
                \<and> length ds = length defaultStrings
                \<and> fst (slice_Sets f raws) = map (\<lambda>_. None) raws
                \<and> slice_Val (snd (slice_Sets f raws)) = (if raws = [] then ds else vs)))"
proof -
  have gen: "\<And>ds. slice_Sets (Slice isBool ds parse) raws =
       (map (\<lambda>_. None) raws,
        if raws = [] then Slice isBool ds parse
        else (Slice isBool ds parse)\<lparr> slice_Value := vs, slice_written := True \<rparr>)"
  proof -
    fix ds
    have "map (slice_Parse (Slice isBool ds parse)) raws = map Inr vs"
      using assms by (simp add: Slice_def)
    from slice_Sets_all_ok [OF this] show "slice_Sets (Slice isBool ds parse) raws =
       (map (\<lambda>_. None) raws,
        if raws = [] then Slice isBool ds parse
        else (Slice isBool ds parse)\<lparr> slice_Value := vs, slice_written := True \<rparr>)"
      by (simp add: Slice_def)
  qed
  have len: "length vs = length raws"
    using assms by (metis length_map)
  have total: "\<forall>ds. map parse defaultStrings = map Inr ds \<longrightarrow>
             (\<exists>f. MustSlice isBool defaultStrings parse = Return f)"
    by (simp add: MustSlice_parses)
  have must: "\<forall>f. MustSlice isBool defaultStrings parse = Return f \<longrightarrow>
             (\<exists>ds. map parse defaultStrings = map Inr ds
                \<and> length ds = length defaultStrings
                \<and> fst (slice_Sets f raws) = map (\<lambda>_. None) raws
                \<and> slice_Val (snd (slice_Sets f raws)) = (if raws = [] then ds else vs))"
  proof (intro allI impI)
    fix f assume "MustSlice isBool defaultStrings parse = Return f"
    then obtain ds where ds: "map parse defaultStrings = map Inr ds"
      and f: "f = Slice isBool ds parse"
      using MustSlice_Return by blast
    from ds have l: "length ds = length defaultStrings"
      by (metis length_map)
    have "fst (slice_Sets f raws) = map (\<lambda>_. None) raws
        \<and> slice_Val (snd (slice_Sets f raws)) = (if raws = [] then ds else vs)"
      unfolding f gen by (simp add: slice_Val_def Slice_def)
    with ds l show "\<exists>ds. map parse defaultStrings = map Inr ds
                \<and> length ds = length defaultStrings
                \<and> fst (slice_Sets f raws) = map (\<lambda>_. None) raws
                \<and> slice_Val (snd (slice_Sets f raws)) = (if raws = [] then ds else vs)"
      by blast
  qed
  from gen [of defaults] len total must show ?thesis
    by (simp add: slice_Val_def Slice_def)
qed

theorem slice_first_write_replaces_default_witness:
  "map parseString [''1'', ''2'', ''3''] = map Inr [''1'', ''2'', ''3'']
   \<and> fst (slice_Sets (Strings [''x'', ''y'']) [''1'', ''2'', ''3'']) = [None, None, None]
   \<and> slice_Val (snd (slice_Sets (Strings [''x'', ''y'']) [''1'', ''2'', ''3'']))
       = [''1'', ''2'', ''3'']
   \<and> slice_Val (snd (slice_Sets (Strings [''x'', ''y'']) [])) = [''x'', ''y'']
   \<and> (case map_option Value (Set_Lookup (fst (snd
          (Set_Parse [''-c'', ''1'', ''-c'', ''2'', ''-c'', ''3''] [] (slice_flag_set, ()))))
          ''c'') of Some (SliceGetter f) \<Rightarrow> slice_Val f | _ \<Rightarrow> [])
       = [''1'', ''2'', ''3'']
   \<and> map ParseBool [''false''] = map Inr [False]
   \<and> must_bools = Return (Bools [True, False])
   \<and> slice_Val (snd (slice_Sets (Bools [True, False]) [])) = [True, False]
   \<and> fst (slice_Sets (Bools [True, False]) [''false'']) = [None]
   \<and> slice_Val (snd (slice_Sets (Bools [True, False]) [''false''])) = [False]"
proof -
  have h: "map parseString [''1'', ''2'', ''3''] = map Inr [''1'', ''2'', ''3'']"
    by (simp add: parseString_def)
  have h0: "map parseString [] = map Inr []"
    by simp
  have args: "(case map_option Value (Set_Lookup (fst (snd
          (Set_Parse [''-c'', ''1'', ''-c'', ''2'', ''-c'', ''3''] [] (slice_flag_set, ()))))
          ''c'') of Some (SliceGetter f) \<Rightarrow> slice_Val f | _ \<Rightarrow> [])
       = [''1'', ''2'', ''3'']"
    by code_simp
  have b: "map ParseBool [''false''] = map Inr [False]"
    by (simp add: ParseBool_def)
  have b0: "map ParseBool [] = map Inr []"
    by simp
  have d: "map ParseBool [''true'', ''false''] = map Inr [True, False]"
    by (simp add: ParseBool_def)
  have m: "must_bools = Return (Bools [True, False])"
    by (simp add: must_bools_def MustSlice_def Bools_def Slice_def ParseBool_def)
  from slice_first_write_replaces_default
         [OF b, where isBool = True and defaultStrings = "[''true'', ''false'']"]
  have "\<forall>f. MustSlice True [''true'', ''false''] ParseBool = Return f \<longrightarrow>
          (\<exists>ds. map ParseBool [''true'', ''false''] = map Inr ds
             \<and> length ds = length [''true'', ''false'']
             \<and> fst (slice_Sets f [''false'']) = map (\<lambda>_. None) [''false'']
             \<and> slice_Val (snd (slice_Sets f [''false'']))
                 = (if [''false''] = [] then ds else [False]))"
    by blast
  with m have one: "fst (slice_Sets (Bools [True, False]) [''false'']) = [None]
           \<and> slice_Val (snd (slice_Sets (Bools [True, False]) [''false''])) = [False]"
    unfolding must_bools_def by auto
  from slice_first_write_replaces_default
         [OF b0, where isBool = True and defaultStrings = "[''true'', ''false'']"]
  have "\<forall>f. MustSlice True [''true'', ''false''] ParseBool = Return f \<longrightarrow>
          (\<exists>ds. map ParseBool [''true'', ''false''] = map Inr ds
             \<and> length ds = length [''true'', ''false'']
             \<and> fst (slice_Sets f []) = map (\<lambda>_. None) ([] :: string list)
             \<and> slice_Val (snd (slice_Sets f []))
                 = (if ([] :: string list) = [] then ds else []))"
    by blast
  with m obtain ds where "map ParseBool [''true'', ''false''] = map Inr ds"
    and "slice_Val (snd (slice_Sets (Bools [True, False]) [])) = ds"
    unfolding must_bools_def by auto
  with d have none: "slice_Val (snd (slice_Sets (Bools [True, False]) [])) = [True, False]"
    by auto
  show ?thesis
    using h args b m one none
      slice_first_write_replaces_default [OF h, of False "[''x'', ''y'']"]
      slice_first_write_replaces_default [OF h0, of False "[''x'', ''y'']"]
    by (simp add: Strings_def)
qed

text \<open>
  C8. A scalar flag whose setter is \<open>set(parse)\<close> for a parser \<open>parse\<close> (what \<open>Int\<close>,
  \<open>Bool\<close>, \<open>String\<close>, \<open>Duration\<close> and the other stock constructors build): when the
  parser rejects the string, \<open>Set\<close> returns the parser's error and the flag, its stored
  value included, is exactly as before the call.
\<close>

theorem stock_value_Set_error_keeps_value:
  assumes "value_Setter v = set_parser parse" and "parse s = Inl err"
  shows "value_Set v s = (Some err, v)
       \<and> value_Val (snd (value_Set v s)) = value_Val v"
  using assms by (simp add: value_Set_def set_parser_def)

theorem stock_value_Set_error_keeps_value_witness:
  "value_Setter (Bool True) = set_parser ParseBool
   \<and> (\<exists>err. ParseBool ''maybe'' = Inl err
         \<and> value_Set (Bool True) ''maybe'' = (Some err, Bool True))
   \<and> value_Val (snd (value_Set (Bool True) ''maybe'')) = True"
proof -
  let ?err = "ErrOther (''strconv.ParseBool: parsing '' @ ''maybe'' @ '': invalid syntax'')"
  have s: "value_Setter (Bool True) = set_parser ParseBool"
    by (simp add: Bool_def Var_def)
  have p: "ParseBool ''maybe'' = Inl ?err"
    by (simp add: ParseBool_def)
  have v: "value_Val (Bool True) = True"
    by (simp add: value_Val_def Bool_def Var_def)
  from stock_value_Set_error_keeps_value [OF s p] s p v show ?thesis
    by simp
qed

text \<open>
  C10. A slice flag declared with \<open>Slice\<close> whose very first \<open>Set\<close> gets a string the
  parser rejects: \<open>Set\<close> returns the parse error, the value is left empty whatever the
  default was, the flag counts as written, and a later \<open>Set\<close> with a string that parses
  yields the one parsed element alone.
\<close>

theorem slice_first_Set_error_discards_default:
  assumes "parse s = Inl err"
  shows "fst (slice_Set (Slice isBool defaults parse) s) = Some err
       \<and> slice_Val (snd (slice_Set (Slice isBool defaults parse) s)) = []
       \<and> slice_written (snd (slice_Set (Slice isBool defaults parse) s))
       \<and> (\<forall>s2 v. parse s2 = Inr v \<longrightarrow>
            fst (slice_Set (snd (slice_Set (Slice isBool defaults parse) s)) s2) = None
          \<and> slice_Val (snd (slice_Set (snd (slice_Set (Slice isBool defaults parse) s)) s2))
              = [v])"
  using assms by (simp add: slice_Set_def Slice_def slice_Val_def Let_def)

theorem slice_first_Set_error_discards_default_witness:
  "(\<exists>err. ParseBool ''maybe'' = Inl err
      \<and> fst (slice_Set (Bools [False, False]) ''maybe'') = Some err)
   \<and> slice_Val (snd (slice_Set (Bools [False, False]) ''maybe'')) = []
   \<and> ParseBool ''true'' = Inr True
   \<and> slice_Val (snd (slice_Set (snd (slice_Set (Bools [False, False]) ''maybe'')) ''true''))
       = [True]"
proof -
  let ?err = "ErrOther (''strconv.ParseBool: parsing '' @ ''maybe'' @ '': invalid syntax'')"
  have p: "ParseBool ''maybe'' = Inl ?err"
    by (simp add: ParseBool_def)
  have q: "ParseBool ''true'' = Inr True"
    by (simp add: ParseBool_def)
  from slice_first_Set_error_discards_default
         [of ParseBool "''maybe''" ?err True "[False, False]", OF p] p q
  show ?thesis
    by (simp add: Bools_def)
qed

section \<open>Properties of the walks\<close>

lemma fold_visitErr_set:
  "fold (\<lambda>name (visitErr, w1). if visitErr \<noteq> None then (visitErr, w1) else fn name w1)
     names (Some err, w) = (Some err, w)"
  by (induction names) simp_all

lemma fold_visitErr_walk:
  "fold (\<lambda>name (visitErr, w1). if visitErr \<noteq> None then (visitErr, w1) else fn name w1)
     names (None, w) = walk names fn w"
proof (induction names arbitrary: w)
  case Nil
  show ?case by simp
next
  case (Cons a names)
  obtain r w1 where step: "fn a w = (r, w1)" by (cases "fn a w")
  show ?case
  proof (cases r)
    case None
    with step Cons.IH [of w1] show ?thesis by simp
  next
    case (Some err)
    with step fold_visitErr_set [of fn names err w1] show ?thesis by simp
  qed
qed

lemma walk_logged:
  "walk names (logged fn) (s, x, log0) =
     (case walk names fn (s, x) of
        (r, (s1, x1)) \<Rightarrow> (r, (s1, x1, log0 @ trace names fn (s, x))))"
proof (induction names arbitrary: s x log0)
  case Nil
  show ?case by simp
next
  case (Cons a names)
  obtain r s1 x1 where step: "fn a (s, x) = (r, (s1, x1))"
    by (cases "fn a (s, x)") auto
  show ?case
  proof (cases r)
    case None
    with step Cons.IH [of s1 x1 "log0 @ [(a, None)]"] show ?thesis
      by (simp add: logged_def split: prod.splits)
  next
    case (Some err)
    with step show ?thesis by (simp add: logged_def)
  qed
qed

lemma trace_stops: "stops_at_first_error names (fst (walk names fn w)) (trace names fn w)"
proof (induction names arbitrary: w)
  case Nil
  show ?case by simp
next
  case (Cons a names)
  obtain r w1 where step: "fn a w = (r, w1)" by (cases "fn a w")
  show ?case
  proof (cases r)
    case None
    with step Cons.IH [of w1] show ?thesis by simp
  next
    case (Some err)
    with step show ?thesis by simp
  qed
qed

lemma walk_skip:
  "walk names (\<lambda>name w1. if name \<in> V then (None, w1) else fn name w1) w
   = walk (filter (\<lambda>name. name \<notin> V) names) fn w"
  by (induction names arbitrary: w) (simp_all split: prod.splits option.splits)

lemma walk_collect:
  "walk names (\<lambda>name (s, visited, x). (None, (s, insert name visited, x))) (s0, V, x0)
   = (None, (s0, set names \<union> V, x0))"
  by (induction names arbitrary: V) simp_all

lemma Set_VisitAll_walk:
  "Set_VisitAll fn w = walk (sortFlags (map fst (formal (fs (fst w))))) fn w"
  unfolding Set_VisitAll_def fs_VisitAll_def by (rule fold_visitErr_walk)

lemma Set_Visit_walk:
  "Set_Visit fn w = walk (sortFlags (actual (fs (fst w)))) fn w"
  unfolding Set_Visit_def fs_Visit_def by (rule fold_visitErr_walk)

lemma set_sortFlags [simp]: "set (sortFlags names) = set names"
  by (simp add: sortFlags_def)

lemma sortFlags_sorted_list: "sortFlags names = sorted_list_of_set (set names)"
  by (simp add: sortFlags_def sorted_list_of_set_sort_remdups)

lemma Set_VisitRemaining_walk:
  "Set_VisitRemaining fn w =
     walk (filter (\<lambda>name. name \<notin> set (actual (fs (fst w))))
             (sortFlags (map fst (formal (fs (fst w)))))) fn w"
  by (cases w) (simp add: Set_VisitRemaining_def Set_Visit_walk walk_collect
      Set_VisitAll_walk walk_skip)

lemma filter_sorted_list_of_set:
  "finite A \<Longrightarrow> filter P (sorted_list_of_set A) = sorted_list_of_set {a \<in> A. P a}"
  by (rule sorted_distinct_set_unique) (simp_all add: sorted_wrt_filter)


lemma remaining_names:
  "filter (\<lambda>name. name \<notin> set actual_names) (sortFlags formal_names)
   = sorted_list_of_set (set formal_names - set actual_names)"
proof -
  have "{a \<in> set formal_names. a \<notin> set actual_names} = set formal_names - set actual_names"
    by auto
  then show ?thesis
    by (simp add: sortFlags_sorted_list filter_sorted_list_of_set)
qed

lemma logged_walk_fst: "fst (walk names (logged fn) (s, x, [])) = fst (walk names fn (s, x))"
  by (simp add: walk_logged split: prod.splits)

lemma visit_log_walk:
  "visit_log (\<lambda>f. walk names f) fn (s, x) = trace names fn (s, x)"
  by (simp add: visit_log_def walk_logged split: prod.splits)

lemma Set_VisitAll_sorted:
  "Set_VisitAll fn w = walk (sorted_list_of_set (fst ` set (formal (fs (fst w))))) fn w"
  by (simp add: Set_VisitAll_walk sortFlags_sorted_list)

lemma Set_Visit_sorted:
  "Set_Visit fn w = walk (sorted_list_of_set (set (actual (fs (fst w))))) fn w"
  by (simp add: Set_Visit_walk sortFlags_sorted_list)

lemma Set_VisitRemaining_sorted:
  "Set_VisitRemaining fn w =
     walk (sorted_list_of_set (fst ` set (formal (fs (fst w))) - set (actual (fs (fst w))))) fn w"
  using remaining_names [of "actual (fs (fst w))" "map fst (formal (fs (fst w)))"]
  by (simp add: Set_VisitRemaining_walk)

lemma visit_logs:
  "visit_log Set_VisitAll fn (s, x)
     = trace (sorted_list_of_set (fst ` set (formal (fs s)))) fn (s, x)"
  "visit_log Set_Visit fn (s, x)
     = trace (sorted_list_of_set (set (actual (fs s)))) fn (s, x)"
  "visit_log Set_VisitRemaining fn (s, x)
     = trace (sorted_list_of_set (fst ` set (formal (fs s)) - set (actual (fs s)))) fn (s, x)"
  by (simp_all add: visit_log_def Set_VisitAll_sorted Set_Visit_sorted
      Set_VisitRemaining_sorted walk_logged split: prod.splits)

lemma VisitAll_log_stops:
  "stops_at_first_error (sorted_list_of_set (fst ` set (formal (fs s))))
     (fst (Set_VisitAll fn (s, x))) (visit_log Set_VisitAll fn (s, x))"
  by (simp add: visit_logs Set_VisitAll_sorted trace_stops)

lemma Visit_log_stops:
  "stops_at_first_error (sorted_list_of_set (set (actual (fs s))))
     (fst (Set_Visit fn (s, x))) (visit_log Set_Visit fn (s, x))"
  by (simp add: visit_logs Set_Visit_sorted trace_stops)

lemma VisitRemaining_log_stops:
  "stops_at_first_error
     (sorted_list_of_set (fst ` set (formal (fs s)) - set (actual (fs s))))
     (fst (Set_VisitRemaining fn (s, x))) (visit_log Set_VisitRemaining fn (s, x))"
  by (simp add: visit_logs Set_VisitRemaining_sorted trace_stops)

lemma logged_visits_fst:
  "fst (Set_VisitAll (logged fn) (s, x, [])) = fst (Set_VisitAll fn (s, x))"
  "fst (Set_Visit (logged fn) (s, x, [])) = fst (Set_Visit fn (s, x))"
  "fst (Set_VisitRemaining (logged fn) (s, x, [])) = fst (Set_VisitRemaining fn (s, x))"
  by (simp_all add: Set_VisitAll_sorted Set_Visit_sorted Set_VisitRemaining_sorted
      logged_walk_fst)

text \<open>
  C7. For each of \<open>VisitAll\<close>, \<open>Visit\<close> and \<open>VisitRemaining\<close>, with any callback and
  from any state: the log of the callback's invocations holds the matching flags (all
  declared flags; the set flags; the declared flags that are not set) in lexicographic
  order of name, each once with a nil error, up to and including the first flag at which
  the callback returned an error, which is exactly the error the method returns; when
  the callback never returns an error the log holds every matching flag and the method
  returns nil. Logging the invocations does not change the error returned.
\<close>

theorem visits_stop_at_first_error:
  "stops_at_first_error (sorted_list_of_set (fst ` set (formal (fs s))))
     (fst (Set_VisitAll fn (s, x))) (visit_log Set_VisitAll fn (s, x))
   \<and> stops_at_first_error (sorted_list_of_set (set (actual (fs s))))
     (fst (Set_Visit fn (s, x))) (visit_log Set_Visit fn (s, x))
   \<and> stops_at_first_error
     (sorted_list_of_set (fst ` set (formal (fs s)) - set (actual (fs s))))
     (fst (Set_VisitRemaining fn (s, x))) (visit_log Set_VisitRemaining fn (s, x))
   \<and> fst (Set_VisitAll (logged fn) (s, x, [])) = fst (Set_VisitAll fn (s, x))
   \<and> fst (Set_Visit (logged fn) (s, x, [])) = fst (Set_Visit fn (s, x))
   \<and> fst (Set_VisitRemaining (logged fn) (s, x, [])) = fst (Set_VisitRemaining fn (s, x))"
  using VisitAll_log_stops [of s fn x] Visit_log_stops [of s fn x]
    VisitRemaining_log_stops [of s fn x] logged_visits_fst [of fn s x]
  by simp

theorem visits_stop_at_first_error_witness:
  "fst (Set_VisitAll (sentinel_at {''c''}) (walks_set, ())) = Some (ErrOther ''sentinel'')
   \<and> visit_log Set_VisitAll (sentinel_at {''c''}) (walks_set, ())
       = [(''a'', None), (''b'', None), (''c'', Some (ErrOther ''sentinel''))]
   \<and> stops_at_first_error [''a'', ''b'', ''c'', ''d''] (Some (ErrOther ''sentinel''))
        (visit_log Set_VisitAll (sentinel_at {''c''}) (walks_set, ()))
   \<and> fst (Set_Visit (sentinel_at {''b'', ''c''}) (walks_set, ())) = Some (ErrOther ''sentinel'')
   \<and> visit_log Set_Visit (sentinel_at {''b'', ''c''}) (walks_set, ())
       = [(''b'', Some (ErrOther ''sentinel''))]
   \<and> stops_at_first_error [''b'', ''c''] (Some (ErrOther ''sentinel''))
        (visit_log Set_Visit (sentinel_at {''b'', ''c''}) (walks_set, ()))
   \<and> fst (Set_VisitRemaining (sentinel_at {''c''}) (walks_set, ())) = None
   \<and> visit_log Set_VisitRemaining (sentinel_at {''c''}) (walks_set, ())
       = [(''a'', None), (''d'', None)]
   \<and> stops_at_first_error [''a'', ''d''] None
        (visit_log Set_VisitRemaining (sentinel_at {''c''}) (walks_set, ()))"
proof -
  have names:
    "sorted_list_of_set (fst ` set (formal (fs walks_set))) = [''a'', ''b'', ''c'', ''d'']"
    "sorted_list_of_set (set (actual (fs walks_set))) = [''b'', ''c'']"
    "sorted_list_of_set (fst ` set (formal (fs walks_set)) - set (actual (fs walks_set)))
       = [''a'', ''d'']"
    by code_simp+
  have runs:
    "fst (Set_VisitAll (sentinel_at {''c''}) (walks_set, ())) = Some (ErrOther ''sentinel'')"
    "fst (Set_Visit (sentinel_at {''b'', ''c''}) (walks_set, ())) = Some (ErrOther ''sentinel'')"
    "fst (Set_VisitRemaining (sentinel_at {''c''}) (walks_set, ())) = None"
    by code_simp+
  have logs:
    "visit_log Set_VisitAll (sentinel_at {''c''}) (walks_set, ())
       = [(''a'', None), (''b'', None), (''c'', Some (ErrOther ''sentinel''))]"
    "visit_log Set_Visit (sentinel_at {''b'', ''c''}) (walks_set, ())
       = [(''b'', Some (ErrOther ''sentinel''))]"
    "visit_log Set_VisitRemaining (sentinel_at {''c''}) (walks_set, ())
       = [(''a'', None), (''d'', None)]"
    by code_simp+
  from visits_stop_at_first_error [of walks_set "sentinel_at {''c''}" "()"]
    visits_stop_at_first_error [of walks_set "sentinel_at {''b'', ''c''}" "()"]
  show ?thesis
    unfolding names runs logs by simp
qed

lemma stops_at_first_error_names:
  "stops_at_first_error names r log \<Longrightarrow>
   map fst log = take (length log) names \<and> (r = None \<longrightarrow> map fst log = names)"
proof (induction names r log rule: stops_at_first_error.induct)
  case (1 r log)
  then show ?case by simp
next
  case (2 n ns r)
  then show ?case by simp
next
  case (3 n ns r entry log)
  then show ?case by (cases "snd entry") auto
qed

section \<open>Properties of \<open>Set.Set\<close>\<close>

lemma store_Value_keys:
  "map_of (formal f) name = Some flag \<Longrightarrow>
   map fst (formal (store_Value f name flag g)) = map fst (formal f)"
  by (simp add: store_Value_def update_keys weak_map_of_SomeI
      domI dom_map_of_conv_image_fst [symmetric])


lemma fs_Set_cases:
  "fs_Set name val f =
     (case map_of (formal f) name of
        None \<Rightarrow> (Some (ErrNoSuchFlag name), f)
      | Some flag \<Rightarrow>
          (fst (Getter_Set (Value flag) val),
           (store_Value f name flag (snd (Getter_Set (Value flag) val)))
             \<lparr> actual := (if fst (Getter_Set (Value flag) val) = None
                           then List.insert name (actual f) else actual f) \<rparr>))"
  by (simp add: fs_Set_def store_Value_def split: option.splits prod.splits)

lemma fs_Set_actual:
  "set (actual (snd (fs_Set name val f))) =
     (if fst (fs_Set name val f) = None then insert name (set (actual f)) else set (actual f))"
  by (simp add: fs_Set_cases store_Value_def split: option.splits)

lemma fs_Set_keys: "map fst (formal (snd (fs_Set name val f))) = map fst (formal f)"
  by (simp add: fs_Set_cases store_Value_keys split: option.splits)

lemma Set_Set_fs: "fs (snd (Set_Set src name val s)) = snd (fs_Set name val (fs s))"
  by (simp add: Set_Set_def split: prod.splits option.splits)

lemma Set_Set_fst: "fst (Set_Set src name val s) = fst (fs_Set name val (fs s))"
  by (simp add: Set_Set_def split: prod.splits option.splits)

lemma Set_Set_provideMap:
  "provideMap (snd (Set_Set src name val s)) =
     (if fst (Set_Set src name val s) = None then (provideMap s)(name \<mapsto> src)
      else provideMap s)"
  by (simp add: Set_Set_def split: prod.splits option.splits)

text \<open>
  C3. \<open>Set.Set(src, name, raw)\<close> either succeeds: the flag is declared, its own \<open>Set\<close>
  accepted the string, the flag now holds the value that \<open>Set\<close> produced, and the
  provenance map is the old one with \<open>name\<close> mapped to \<open>src\<close>; or it fails: the
  provenance map is the old one, and the error is the standard "no such flag" error for
  an undeclared name and otherwise exactly the error of the flag's own \<open>Set\<close>.
\<close>

theorem Set_Set_records_source_on_success_only:
  "(case Set_Set src name raw s of
      (None, s1) \<Rightarrow>
        (\<exists>flag g. Set_Lookup s name = Some flag
            \<and> Getter_Set (Value flag) raw = (None, g)
            \<and> Set_Lookup s1 name = Some (flag\<lparr> Value := g \<rparr>))
        \<and> provideMap s1 = (provideMap s)(name \<mapsto> src)
    | (Some err, s1) \<Rightarrow>
        provideMap s1 = provideMap s
        \<and> (case Set_Lookup s name of
              None \<Rightarrow> err = ErrNoSuchFlag name \<and> s1 = s
            | Some flag \<Rightarrow> fst (Getter_Set (Value flag) raw) = Some err))"
proof (cases "map_of (formal (fs s)) name")
  case None
  then show ?thesis
    by (simp add: Set_Set_def fs_Set_def Set_Lookup_def fs_Lookup_def)
next
  case (Some flag)
  obtain r g where g: "Getter_Set (Value flag) raw = (r, g)"
    by (cases "Getter_Set (Value flag) raw")
  show ?thesis
  proof (cases r)
    case None
    with Some g show ?thesis
      by (simp add: Set_Set_def fs_Set_def Set_Lookup_def fs_Lookup_def store_Value_def
          update_conv')
  next
    case (Some err)
    with \<open>map_of (formal (fs s)) name = Some flag\<close> g show ?thesis
      by (simp add: Set_Set_def fs_Set_def Set_Lookup_def fs_Lookup_def)
  qed
qed

theorem Set_Set_records_source_on_success_only_witness:
  "fst (Set_Set ''env: A'' ''a'' ''7'' walks_set) = None
   \<and> provideMap (snd (Set_Set ''env: A'' ''a'' ''7'' walks_set)) ''a'' = Some ''env: A''
   \<and> map_option Value (Set_Lookup (snd (Set_Set ''env: A'' ''a'' ''7'' walks_set)) ''a'')
       = Some (ValueGetter (String ''7''))
   \<and> Set_Set ''env: Z'' ''z'' ''7'' walks_set = (Some (ErrNoSuchFlag ''z''), walks_set)"
proof -
  have ok: "Set_Set ''env: A'' ''a'' ''7'' walks_set =
      (None, walks_set\<lparr>
         fs := (fs walks_set)\<lparr> formal := AList.update ''a''
                   \<lparr> Name = ''a'', Usage = ''default'', Value = ValueGetter (String ''7'') \<rparr>
                   (formal (fs walks_set)),
                 actual := [''a'', ''c'', ''b''] \<rparr>,
         provideMap := (provideMap walks_set)(''a'' \<mapsto> ''env: A'') \<rparr>)"
    by (simp add: Set_Set_def fs_Set_def walks_set_def store_Value_def String_def Var_def
        value_Set_def set_parser_def parseString_def)
  have bad: "Set_Set ''env: Z'' ''z'' ''7'' walks_set = (Some (ErrNoSuchFlag ''z''), walks_set)"
    by (simp add: Set_Set_def fs_Set_def walks_set_def)
  from Set_Set_records_source_on_success_only
         [where src = "''env: A''" and name = "''a''" and raw = "''7''" and s = walks_set]
    Set_Set_records_source_on_success_only
         [where src = "''env: Z''" and name = "''z''" and raw = "''7''" and s = walks_set]
  show ?thesis
    unfolding ok bad
    by (simp add: Set_Lookup_def fs_Lookup_def walks_set_def)
qed

section \<open>Properties of \<open>VisitRemaining\<close>\<close>

lemma stops_at_first_error_length:
  "stops_at_first_error names r log \<Longrightarrow> length log \<le> length names"
  by (induction names r log rule: stops_at_first_error.induct) (auto split: option.splits)

lemma stops_at_first_error_prefix:
  assumes "stops_at_first_error names r log" and "sorted names" and "distinct names"
  shows "sorted (map fst log) \<and> distinct (map fst log) \<and> set (map fst log) \<subseteq> set names"
proof -
  from assms(1) have eq: "map fst log = take (length log) names"
    by (simp add: stops_at_first_error_names)
  show ?thesis
    unfolding eq using assms(2,3) by (auto dest: in_set_takeD)
qed

text \<open>
  C4. \<open>VisitRemaining\<close> with any callback, from any state: the callback is invoked on
  flags that are declared and not set in the state at the call, in lexicographic order
  of name and each at most once, whatever the callback sets meanwhile; and when no
  invocation returns an error, on exactly all of them. So a flag that is set when a
  call begins is not visited by that call. A successful \<open>Set.Set\<close> makes its flag a set
  flag and leaves every set flag set.
\<close>

theorem VisitRemaining_complement_at_call:
  "(fst (Set_VisitRemaining fn (s, x)) = None \<longrightarrow>
      map fst (visit_log Set_VisitRemaining fn (s, x))
        = sorted_list_of_set (fst ` set (formal (fs s)) - set (actual (fs s))))
   \<and> sorted (map fst (visit_log Set_VisitRemaining fn (s, x)))
   \<and> distinct (map fst (visit_log Set_VisitRemaining fn (s, x)))
   \<and> set (map fst (visit_log Set_VisitRemaining fn (s, x)))
        \<subseteq> fst ` set (formal (fs s)) - set (actual (fs s))
   \<and> (name \<in> set (actual (fs s)) \<longrightarrow>
        name \<notin> fst ` set (visit_log Set_VisitRemaining fn (s, x)))
   \<and> (fst (Set_Set src name raw s) = None \<longrightarrow>
        name \<in> set (actual (fs (snd (Set_Set src name raw s)))))
   \<and> set (actual (fs s)) \<subseteq> set (actual (fs (snd (Set_Set src name raw s))))"
proof -
  let ?names = "sorted_list_of_set (fst ` set (formal (fs s)) - set (actual (fs s)))"
  let ?log = "visit_log Set_VisitRemaining fn (s, x)"
  have stops: "stops_at_first_error ?names (fst (Set_VisitRemaining fn (s, x))) ?log"
    by (rule VisitRemaining_log_stops)
  have all: "fst (Set_VisitRemaining fn (s, x)) = None \<longrightarrow> map fst ?log = ?names"
    using stops_at_first_error_names [OF stops] by blast
  have "sorted ?names" and "distinct ?names"
    by simp_all
  from stops_at_first_error_prefix [OF stops this]
  have pre: "sorted (map fst ?log)" "distinct (map fst ?log)"
    "set (map fst ?log) \<subseteq> fst ` set (formal (fs s)) - set (actual (fs s))"
    by simp_all
  from pre(3) have skip: "name \<in> set (actual (fs s)) \<longrightarrow> name \<notin> fst ` set ?log"
    by auto
  have grow: "(fst (Set_Set src name raw s) = None \<longrightarrow>
        name \<in> set (actual (fs (snd (Set_Set src name raw s)))))
      \<and> set (actual (fs s)) \<subseteq> set (actual (fs (snd (Set_Set src name raw s))))"
    by (auto simp: Set_Set_fs Set_Set_fst fs_Set_actual)
  from all pre skip grow show ?thesis
    by blast
qed

theorem VisitRemaining_complement_at_call_witness:
  "fst (Set_VisitRemaining (set_when ''a'' ''d'') (walks_set, ())) = None
   \<and> sorted_list_of_set (fst ` set (formal (fs walks_set)) - set (actual (fs walks_set)))
       = [''a'', ''d'']
   \<and> map fst (visit_log Set_VisitRemaining (set_when ''a'' ''d'') (walks_set, ()))
       = [''a'', ''d'']
   \<and> fst (Set_Set ''callback'' ''d'' ''9'' walks_set) = None
   \<and> ''d'' \<in> set (actual (fs (snd (Set_Set ''callback'' ''d'' ''9'' walks_set))))
   \<and> ''d'' \<in> set (actual (fs (fst (snd
         (Set_VisitRemaining (set_when ''a'' ''d'') (walks_set, ()))))))
   \<and> map fst (visit_log Set_VisitRemaining (set_when ''a'' ''d'')
         (snd (Set_VisitRemaining (set_when ''a'' ''d'') (walks_set, ()))))
       = [''a'']"
proof -
  have run: "fst (Set_VisitRemaining (set_when ''a'' ''d'') (walks_set, ())) = None"
    by code_simp
  have names:
    "sorted_list_of_set (fst ` set (formal (fs walks_set)) - set (actual (fs walks_set)))
       = [''a'', ''d'']"
    by code_simp
  have set_d: "fst (Set_Set ''callback'' ''d'' ''9'' walks_set) = None"
    by code_simp
  have after: "''d'' \<in> set (actual (fs (fst (snd
         (Set_VisitRemaining (set_when ''a'' ''d'') (walks_set, ()))))))"
    by code_simp
  have again: "map fst (visit_log Set_VisitRemaining (set_when ''a'' ''d'')
         (snd (Set_VisitRemaining (set_when ''a'' ''d'') (walks_set, ()))))
       = [''a'']"
    by code_simp
  from VisitRemaining_complement_at_call
         [where fn = "set_when ''a'' ''d''" and s = walks_set and x = "()"
            and name = "''d''" and src = "''callback''" and raw = "''9''"]
    run names set_d after again
  show ?thesis
    by simp
qed

section \<open>Properties of \<open>Set.Parse\<close>\<close>

lemma walk_map: "walk (map f xs) fn w = walk xs (\<lambda>a. fn (f a)) w"
  by (induction xs arbitrary: w) (simp_all split: prod.splits option.splits)

lemma run_extraParsers_walk:
  "run_extraParsers ps w =
     (case walk ps (\<lambda>p. p) w of
        (None, w1) \<Rightarrow> (Return None, w1)
      | (Some err, w1) \<Rightarrow> (handle_error (errorHandling (fs (fst w1))) err, w1))"
  by (induction ps arbitrary: w)
     (simp_all add: handle_error_def split: prod.splits option.splits ErrorHandling.splits)

lemma run_extraParsers_indexed:
  "run_extraParsers ps w =
     (case walk [0..<length ps] (\<lambda>i. ps ! i) w of
        (None, w1) \<Rightarrow> (Return None, w1)
      | (Some err, w1) \<Rightarrow> (handle_error (errorHandling (fs (fst w1))) err, w1))"
proof -
  have "walk ps (\<lambda>p. p) w = walk (map (\<lambda>i. ps ! i) [0..<length ps]) (\<lambda>p. p) w"
    by (simp add: map_nth)
  then show ?thesis
    by (simp add: run_extraParsers_walk walk_map)
qed

lemma run_logged_parsers:
  "run_extraParsers (logged_parsers ps) (s, x, []) =
     (case walk [0..<length ps] (\<lambda>i. ps ! i) (s, x) of
        (None, (s1, x1)) \<Rightarrow>
          (Return None, (s1, x1, trace [0..<length ps] (\<lambda>i. ps ! i) (s, x)))
      | (Some err, (s1, x1)) \<Rightarrow>
          (handle_error (errorHandling (fs s1)) err,
           (s1, x1, trace [0..<length ps] (\<lambda>i. ps ! i) (s, x))))"
  by (simp add: run_extraParsers_walk logged_parsers_def walk_map walk_logged
      split: prod.splits option.splits)

text \<open>
  The arguments parsed without error: the extra parsers run from the stamped state;
  the log is the trace of the walk over the parsers' numbers.
\<close>

lemma Set_Parse_ok:
  assumes "fs_Parse arguments (fs s) = (Return None, f)"
  shows "Set_Parse arguments ps (s, x) = run_extraParsers ps (stamp_sources (s\<lparr> fs := f \<rparr>), x)"
  using assms by (simp add: Set_Parse_def)

lemma Set_Parse_failed:
  assumes "fs_Parse arguments (fs s) = (out, f)" and "out \<noteq> Return None"
  shows "Set_Parse arguments ps (s, x) = (out, (s\<lparr> fs := f \<rparr>, x))"
  using assms by (simp add: Set_Parse_def split: outcome.splits option.splits)

lemma primary_failure_passed_on:
  assumes "fst (fs_Parse arguments (fs s)) \<noteq> Return None"
  shows "Set_Parse arguments ps (s, x)
           = (fst (fs_Parse arguments (fs s)), (s\<lparr> fs := snd (fs_Parse arguments (fs s)) \<rparr>, x))"
    and "parser_log arguments ps (s, x) = []"
proof -
  obtain out f where p: "fs_Parse arguments (fs s) = (out, f)"
    by (cases "fs_Parse arguments (fs s)")
  with assms have out: "out \<noteq> Return None" by simp
  show "Set_Parse arguments ps (s, x)
           = (fst (fs_Parse arguments (fs s)), (s\<lparr> fs := snd (fs_Parse arguments (fs s)) \<rparr>, x))"
    using Set_Parse_failed [OF p out] p by simp
  show "parser_log arguments ps (s, x) = []"
    using Set_Parse_failed [OF p out, of "logged_parsers ps" "(x, [])"]
    by (simp add: parser_log_def)
qed

lemma extra_parsers_stop_at_error:
  assumes "fst (fs_Parse arguments (fs s)) = Return None"
  shows "\<exists>r. stops_at_first_error [0..<length ps] r (parser_log arguments ps (s, x))
           \<and> fst (Set_Parse arguments ps (s, x)) =
               (case r of
                  None \<Rightarrow> Return None
                | Some err \<Rightarrow>
                    handle_error
                      (errorHandling (fs (fst (snd (Set_Parse arguments ps (s, x)))))) err)"
    and "fst (Set_Parse arguments (logged_parsers ps) (s, x, []))
           = fst (Set_Parse arguments ps (s, x))"
proof -
  obtain f where p: "fs_Parse arguments (fs s) = (Return None, f)"
    using assms by (cases "fs_Parse arguments (fs s)") simp
  let ?s0 = "stamp_sources (s\<lparr> fs := f \<rparr>)"
  let ?w = "walk [0..<length ps] (\<lambda>i. ps ! i) (?s0, x)"
  obtain r s1 x1 where w: "?w = (r, (s1, x1))"
    by (cases ?w) auto
  have log: "parser_log arguments ps (s, x) = trace [0..<length ps] (\<lambda>i. ps ! i) (?s0, x)"
    using w by (simp add: parser_log_def Set_Parse_ok [OF p] run_logged_parsers
        split: option.splits)
  have out: "Set_Parse arguments ps (s, x) =
      (case r of None \<Rightarrow> Return None
       | Some err \<Rightarrow> handle_error (errorHandling (fs s1)) err, (s1, x1))"
    using w by (simp add: Set_Parse_ok [OF p] run_extraParsers_indexed split: option.splits)
  have "stops_at_first_error [0..<length ps] r (parser_log arguments ps (s, x))"
    using trace_stops [of "[0..<length ps]" "\<lambda>i. ps ! i" "(?s0, x)"] w log by simp
  with out show "\<exists>r. stops_at_first_error [0..<length ps] r (parser_log arguments ps (s, x))
           \<and> fst (Set_Parse arguments ps (s, x)) =
               (case r of
                  None \<Rightarrow> Return None
                | Some err \<Rightarrow>
                    handle_error
                      (errorHandling (fs (fst (snd (Set_Parse arguments ps (s, x)))))) err)"
    by (intro exI [of _ r]) (simp split: option.splits)
  show "fst (Set_Parse arguments (logged_parsers ps) (s, x, []))
           = fst (Set_Parse arguments ps (s, x))"
    using w out by (simp add: Set_Parse_ok [OF p] run_logged_parsers split: option.splits)
qed

text \<open>
  C1. \<open>Set.Parse\<close> with any arguments and any extra parsers, from any state. When the
  parse of the arguments does not return nil, \<open>Parse\<close> ends the same way (returns
  that error, exits or panics as the parse of the arguments did) and no extra parser is
  invoked. Otherwise the extra parsers are invoked in order, each after the other
  returned nil, up to and including the first that returns an error; no parser after
  it is invoked; under \<open>ContinueOnError\<close> \<open>Parse\<close> returns exactly that error (under
  the other policies it exits with 2 or panics with it), and with no error it returns
  nil. Logging the invocations does not change how \<open>Parse\<close> ends.
\<close>

theorem Parse_fail_fast:
  "(fst (fs_Parse arguments (fs s)) \<noteq> Return None \<longrightarrow>
      Set_Parse arguments ps (s, x)
        = (fst (fs_Parse arguments (fs s)), (s\<lparr> fs := snd (fs_Parse arguments (fs s)) \<rparr>, x))
      \<and> parser_log arguments ps (s, x) = [])
   \<and> (fst (fs_Parse arguments (fs s)) = Return None \<longrightarrow>
      (\<exists>r. stops_at_first_error [0..<length ps] r (parser_log arguments ps (s, x))
         \<and> fst (Set_Parse arguments ps (s, x)) =
             (case r of
                None \<Rightarrow> Return None
              | Some err \<Rightarrow>
                  handle_error
                    (errorHandling (fs (fst (snd (Set_Parse arguments ps (s, x)))))) err))
      \<and> fst (Set_Parse arguments (logged_parsers ps) (s, x, []))
          = fst (Set_Parse arguments ps (s, x)))
   \<and> handle_error ContinueOnError err = Return (Some err)"
  using primary_failure_passed_on [of arguments s ps x] extra_parsers_stop_at_error [of arguments s ps x]
  by (simp add: handle_error_def)

theorem Parse_fail_fast_witness:
  "fst (fs_Parse [''-imnotaflag''] (fs (one_flag_set ContinueOnError)))
     = Return (Some (ErrNotDefined ''imnotaflag''))
   \<and> fst (Set_Parse [''-imnotaflag''] [goodParser] (one_flag_set ContinueOnError, ()))
     = Return (Some (ErrNotDefined ''imnotaflag''))
   \<and> parser_log [''-imnotaflag''] [goodParser] (one_flag_set ContinueOnError, ()) = []
   \<and> fst (fs_Parse [] (fs (one_flag_set ContinueOnError))) = Return None
   \<and> parser_log [] [goodParser, faultyParser, goodParser] (one_flag_set ContinueOnError, ())
     = [(0, None), (1, Some (ErrOther ''sentinel''))]
   \<and> stops_at_first_error [0..<3] (Some (ErrOther ''sentinel''))
        (parser_log [] [goodParser, faultyParser, goodParser] (one_flag_set ContinueOnError, ()))
   \<and> fst (Set_Parse [] [goodParser, faultyParser, goodParser] (one_flag_set ContinueOnError, ()))
     = Return (Some (ErrOther ''sentinel''))
   \<and> fst (Set_Parse [] [goodParser, faultyParser, goodParser] (one_flag_set ExitOnError, ()))
     = Exit 2"
proof -
  have p1: "fst (fs_Parse [''-imnotaflag''] (fs (one_flag_set ContinueOnError)))
     = Return (Some (ErrNotDefined ''imnotaflag''))"
    by code_simp
  have p2: "fst (fs_Parse [] (fs (one_flag_set ContinueOnError))) = Return None"
    by code_simp
  have l2: "parser_log [] [goodParser, faultyParser, goodParser] (one_flag_set ContinueOnError, ())
     = [(0, None), (1, Some (ErrOther ''sentinel''))]"
    by code_simp
  have r2: "fst (Set_Parse [] [goodParser, faultyParser, goodParser] (one_flag_set ContinueOnError, ()))
     = Return (Some (ErrOther ''sentinel''))"
    by code_simp
  have r3: "fst (Set_Parse [] [goodParser, faultyParser, goodParser] (one_flag_set ExitOnError, ()))
     = Exit 2"
    by code_simp
  have st: "stops_at_first_error [0..<3] (Some (ErrOther ''sentinel''))
        [(0, None), (1, Some (ErrOther ''sentinel''))]"
    by code_simp
  from Parse_fail_fast [where arguments = "[''-imnotaflag'']" and s = "one_flag_set ContinueOnError"
      and ps = "[goodParser]" and x = "()"] p1
  have a: "fst (Set_Parse [''-imnotaflag''] [goodParser] (one_flag_set ContinueOnError, ()))
     = Return (Some (ErrNotDefined ''imnotaflag''))
   \<and> parser_log [''-imnotaflag''] [goodParser] (one_flag_set ContinueOnError, ()) = []"
    by simp
  from a p1 p2 l2 r2 r3 st show ?thesis
    by simp
qed

section \<open>Provenance after the parse of the arguments\<close>

lemma fold_map_upd:
  "fold (\<lambda>name m. m(name \<mapsto> c)) names m = (\<lambda>n. if n \<in> set names then Some c else m n)"
  by (induction names arbitrary: m) (auto simp: fun_eq_iff)

lemma stamp_sources_provideMap:
  "provideMap (stamp_sources s) name =
     (if name \<in> set (actual (fs s)) then Some SourceFlags
      else if name \<in> fst ` set (formal (fs s)) then Some SourceDefaultVal
      else provideMap s name)"
  by (simp add: stamp_sources_def fs_VisitAll_def fs_Visit_def fold_map_upd Let_def)

lemma stamp_sources_fs: "fs (stamp_sources s) = fs s"
  by (simp add: stamp_sources_def Let_def)

lemma bind_flag_result:
  assumes "bind_flag f name flag val failf = (seen, err, f1)"
    and "map_of (formal f) name = Some flag"
  shows "map fst (formal f1) = map fst (formal f)"
    and "actual f1 = (if seen then List.insert name (actual f) else actual f)"
  using assms
  by (auto simp: bind_flag_def store_Value_keys split: prod.splits option.splits)
     (auto simp: store_Value_def)

lemma fs_parseOne_flag:
  assumes "args f = s # rest"
    and "\<not> (length s < 2 \<or> hd s \<noteq> CHR ''-'')" and "\<not> (s ! 1 = CHR ''-'' \<and> length s = 2)"
    and "name0 = drop (if s ! 1 = CHR ''-'' then 2 else 1) s"
    and "\<not> (name0 = [] \<or> hd name0 = CHR ''-'' \<or> hd name0 = CHR ''='')"
    and "split_name name0 = (name, hasValue, val)"
    and "map_of (formal f) name = Some flag"
  shows "fs_parseOne f =
     (if Getter_IsBoolFlag (Value flag) then
        (if hasValue
         then bind_flag (f\<lparr> args := rest \<rparr>) name flag val (ErrInvalidBooleanValue val name)
         else bind_flag (f\<lparr> args := rest \<rparr>) name flag ''true'' (ErrInvalidBooleanFlag name))
      else if hasValue
        then bind_flag (f\<lparr> args := rest \<rparr>) name flag val (ErrInvalidValue val name)
      else
        (case rest of
           [] \<Rightarrow> (False, Some (ErrNeedsArgument name), f\<lparr> args := rest \<rparr>)
         | val1 # rest1 \<Rightarrow>
             bind_flag (f\<lparr> args := rest1 \<rparr>) name flag val1 (ErrInvalidValue val1 name)))"
  using assms by (auto simp: fs_parseOne_def Let_def)

lemma fs_parseOne_no_flag:
  assumes "args f = s # rest"
    and "\<not> (length s < 2 \<or> hd s \<noteq> CHR ''-'')" and "\<not> (s ! 1 = CHR ''-'' \<and> length s = 2)"
    and "name0 = drop (if s ! 1 = CHR ''-'' then 2 else 1) s"
    and "\<not> (name0 = [] \<or> hd name0 = CHR ''-'' \<or> hd name0 = CHR ''='')"
    and "split_name name0 = (name, hasValue, val)"
    and "map_of (formal f) name = None"
  shows "fs_parseOne f =
     (False, Some (if name = ''help'' \<or> name = ''h'' then ErrHelp else ErrNotDefined name),
      f\<lparr> args := rest \<rparr>)"
  using assms by (auto simp: fs_parseOne_def Let_def)

lemma fs_parseOne_stop:
  assumes "args f = s # rest"
    and "length s < 2 \<or> hd s \<noteq> CHR ''-'' \<or> (s ! 1 = CHR ''-'' \<and> length s = 2)
         \<or> drop (if s ! 1 = CHR ''-'' then 2 else 1) s = []
         \<or> hd (drop (if s ! 1 = CHR ''-'' then 2 else 1) s) = CHR ''-''
         \<or> hd (drop (if s ! 1 = CHR ''-'' then 2 else 1) s) = CHR ''=''"
  shows "\<exists>err as. fs_parseOne f = (False, err, f\<lparr> args := as \<rparr>)"
proof (cases "length s < 2 \<or> hd s \<noteq> CHR ''-''")
  case True
  then have "fs_parseOne f = (False, None, f\<lparr> args := args f \<rparr>)"
    using assms(1) by (simp add: fs_parseOne_def)
  then show ?thesis by blast
next
  case False
  show ?thesis
  proof (cases "s ! 1 = CHR ''-'' \<and> length s = 2")
    case True
    with False have "fs_parseOne f = (False, None, f\<lparr> args := rest \<rparr>)"
      using assms(1) by (simp add: fs_parseOne_def)
    then show ?thesis by blast
  next
    case ne: False
    with False assms(2) have "fs_parseOne f = (False, Some (ErrBadFlagSyntax s), f\<lparr> args := args f \<rparr>)"
      using assms(1) by (auto simp: fs_parseOne_def Let_def)
    then show ?thesis by blast
  qed
qed

lemma fs_parseOne_result:
  assumes one: "fs_parseOne f = (seen, err, f1)"
  shows "map fst (formal f1) = map fst (formal f)
       \<and> actual f1 = (if seen then List.insert (token_name (hd (args f))) (actual f)
                      else actual f)"
proof (cases "args f")
  case Nil
  with one show ?thesis by (simp add: fs_parseOne_def)
next
  case (Cons s rest)
  let ?name0 = "drop (if s ! 1 = CHR ''-'' then 2 else 1) s"
  show ?thesis
  proof (cases "length s < 2 \<or> hd s \<noteq> CHR ''-'' \<or> (s ! 1 = CHR ''-'' \<and> length s = 2)
         \<or> ?name0 = [] \<or> hd ?name0 = CHR ''-'' \<or> hd ?name0 = CHR ''=''")
    case True
    from fs_parseOne_stop [OF Cons True] one show ?thesis by auto
  next
    case False
    then have c: "\<not> (length s < 2 \<or> hd s \<noteq> CHR ''-'')" "\<not> (s ! 1 = CHR ''-'' \<and> length s = 2)"
      "\<not> (?name0 = [] \<or> hd ?name0 = CHR ''-'' \<or> hd ?name0 = CHR ''='')"
      by blast+
    obtain name hasValue val where sp: "split_name ?name0 = (name, hasValue, val)"
      by (cases "split_name ?name0")
    have tn: "token_name (hd (args f)) = name"
      using Cons sp by (simp add: token_name_def)
    show ?thesis
    proof (cases "map_of (formal f) name")
      case None
      from fs_parseOne_no_flag [OF Cons c(1,2) refl c(3) sp None] one show ?thesis
        by auto
    next
      case (Some flag)
      note eq = fs_parseOne_flag [OF Cons c(1,2) refl c(3) sp Some]
      have keys: "\<And>as. map_of (formal (f\<lparr> args := as \<rparr>)) name = Some flag"
        using Some by simp
      have bound: "\<And>as v failf. bind_flag (f\<lparr> args := as \<rparr>) name flag v failf = (seen, err, f1)
          \<Longrightarrow> ?thesis"
        using bind_flag_result [OF _ keys] tn by simp
      show ?thesis
      proof (cases "Getter_IsBoolFlag (Value flag)")
        case isBool: True
        show ?thesis
        proof (cases hasValue)
          case True
          with isBool eq one
          have "bind_flag (f\<lparr> args := rest \<rparr>) name flag val (ErrInvalidBooleanValue val name)
                  = (seen, err, f1)" by simp
          then show ?thesis by (rule bound)
        next
          case False
          with isBool eq one
          have "bind_flag (f\<lparr> args := rest \<rparr>) name flag ''true'' (ErrInvalidBooleanFlag name)
                  = (seen, err, f1)" by simp
          then show ?thesis by (rule bound)
        qed
      next
        case noBool: False
        show ?thesis
        proof (cases hasValue)
          case True
          with noBool eq one
          have "bind_flag (f\<lparr> args := rest \<rparr>) name flag val (ErrInvalidValue val name)
                  = (seen, err, f1)" by simp
          then show ?thesis by (rule bound)
        next
          case noValue: False
          show ?thesis
          proof (cases rest)
            case Nil
            with noBool noValue eq one show ?thesis by auto
          next
            case (Cons val1 rest1)
            with noBool noValue eq one
            have "bind_flag (f\<lparr> args := rest1 \<rparr>) name flag val1 (ErrInvalidValue val1 name)
                    = (seen, err, f1)" by simp
            then show ?thesis by (rule bound)
          qed
        qed
      qed
    qed
  qed
qed

lemma fs_parse_loop_result:
  "map fst (formal (snd (fs_parse_loop f))) = map fst (formal f)
   \<and> set (actual (snd (fs_parse_loop f))) = set (actual f) \<union> set (consumed f)"
proof (induction f rule: fs_parse_loop.induct)
  case (1 f)
  obtain seen err f1 where one: "fs_parseOne f = (seen, err, f1)"
    by (cases "fs_parseOne f")
  note res = fs_parseOne_result [OF one]
  show ?case
  proof (cases seen)
    case True
    from "1.IH" [OF one [symmetric] refl True]
    have ih: "map fst (formal (snd (fs_parse_loop f1))) = map fst (formal f1)"
      "set (actual (snd (fs_parse_loop f1))) = set (actual f1) \<union> set (consumed f1)"
      by simp_all
    have loop: "fs_parse_loop f = fs_parse_loop f1"
      using one True by (subst fs_parse_loop.simps) simp
    have cons: "consumed f = token_name (hd (args f)) # consumed f1"
      using one True by (subst consumed.simps) simp
    from ih res True show ?thesis
      unfolding loop cons by auto
  next
    case False
    have loop: "snd (fs_parse_loop f) = f1"
      using one False
      by (subst fs_parse_loop.simps) (simp split: option.splits ErrorHandling.splits)
    have cons: "consumed f = []"
      using one False by (subst consumed.simps) simp
    from res False show ?thesis
      unfolding loop cons by simp
  qed
qed

lemma fs_Parse_result:
  "map fst (formal (snd (fs_Parse arguments f))) = map fst (formal f)
   \<and> set (actual (snd (fs_Parse arguments f))) = set (actual f) \<union> set (consumed_flags arguments f)"
  using fs_parse_loop_result [of "f\<lparr> parsed := True, args := arguments \<rparr>"]
  by (simp add: fs_Parse_def consumed_flags_def)

text \<open>
  The set \<open>preset_set\<close> has \<open>c\<close> set through \<open>Set.Set\<close> before \<open>Parse\<close>. The arguments
  \<open>-b 1\<close> parse without error and do not name \<open>c\<close>, and \<open>c\<close> is declared; with no
  extra parser the state \<open>Parse\<close> leaves is the one the stamping made, and there \<open>c\<close>
  is recorded as \<open>SourceFlags\<close>, not as \<open>SourceDefaultVal\<close>: the second walk of the
  stamping visits every set flag, not only those the arguments named.
\<close>

theorem Parse_stamps_preset_flag_counterexample:
  "fst (fs_Parse [''-b'', ''1''] (fs preset_set)) = Return None
   \<and> ''c'' \<in> fst ` set (formal (fs preset_set))
   \<and> ''c'' \<notin> set (consumed_flags [''-b'', ''1''] (fs preset_set))
   \<and> provideMap (fst (snd (Set_Parse [''-b'', ''1''] [] (preset_set, ())))) ''c''
       = Some SourceFlags
   \<and> provideMap (fst (snd (Set_Parse [''-b'', ''1''] [] (preset_set, ())))) ''c''
       \<noteq> Some (if ''c'' \<in> set (consumed_flags [''-b'', ''1''] (fs preset_set))
                then SourceFlags else SourceDefaultVal)"
proof -
  have ok: "fst (fs_Parse [''-b'', ''1''] (fs preset_set)) = Return None"
    by code_simp
  have names: "map fst (formal (fs preset_set)) = [''a'', ''b'', ''c'', ''d'']"
    by code_simp
  have cons: "consumed_flags [''-b'', ''1''] (fs preset_set) = [''b'']"
    by code_simp
  have c: "provideMap (fst (snd (Set_Parse [''-b'', ''1''] [] (preset_set, ())))) ''c''
       = Some SourceFlags"
    by code_simp
  have "''c'' \<in> set (map fst (formal (fs preset_set)))"
    unfolding names by simp
  then have decl: "''c'' \<in> fst ` set (formal (fs preset_set))"
    by simp
  from ok decl show ?thesis
    unfolding c cons by (simp add: SourceFlags_def SourceDefaultVal_def)
qed

text \<open>
  C2. Any flag set and any arguments that parse without error: \<open>Set.Parse\<close> continues
  with the extra parsers (if any) from the state \<open>stamp_sources\<close> made, the declared
  flags are the same as before, the set flags are those set before the call and those
  the parse of the arguments consumed, and in that state the provenance map has an
  entry for every declared flag: \<open>SourceFlags\<close> for every set flag (set before the call,
  or consumed from the arguments) and \<open>SourceDefaultVal\<close> for every other one.
\<close>

theorem Parse_stamps_set_flags:
  assumes "fs_Parse arguments (fs s) = (Return None, f)"
  shows "Set_Parse arguments extraParsers (s, x)
           = run_extraParsers extraParsers (stamp_sources (s\<lparr> fs := f \<rparr>), x)
       \<and> fst ` set (formal (fs (stamp_sources (s\<lparr> fs := f \<rparr>)))) = fst ` set (formal (fs s))
       \<and> set (actual (fs (stamp_sources (s\<lparr> fs := f \<rparr>))))
           = set (actual (fs s)) \<union> set (consumed_flags arguments (fs s))
       \<and> (\<forall>name \<in> fst ` set (formal (fs s)).
            provideMap (stamp_sources (s\<lparr> fs := f \<rparr>)) name =
              Some (if name \<in> set (actual (fs s)) \<union> set (consumed_flags arguments (fs s))
                    then SourceFlags else SourceDefaultVal))"
proof -
  from fs_Parse_result [of arguments "fs s"] assms
  have keys: "map fst (formal f) = map fst (formal (fs s))"
    and act: "set (actual f) = set (actual (fs s)) \<union> set (consumed_flags arguments (fs s))"
    by simp_all
  from keys have keys': "fst ` set (formal f) = fst ` set (formal (fs s))"
    by (metis set_map)
  have "Set_Parse arguments extraParsers (s, x)
           = run_extraParsers extraParsers (stamp_sources (s\<lparr> fs := f \<rparr>), x)"
    using assms by (rule Set_Parse_ok)
  moreover have "fst ` set (formal (fs (stamp_sources (s\<lparr> fs := f \<rparr>))))
      = fst ` set (formal (fs s))"
    using keys' by (simp add: stamp_sources_fs)
  moreover have "set (actual (fs (stamp_sources (s\<lparr> fs := f \<rparr>))))
           = set (actual (fs s)) \<union> set (consumed_flags arguments (fs s))"
    using act by (simp add: stamp_sources_fs)
  moreover have "\<forall>name \<in> fst ` set (formal (fs s)).
            provideMap (stamp_sources (s\<lparr> fs := f \<rparr>)) name =
              Some (if name \<in> set (actual (fs s)) \<union> set (consumed_flags arguments (fs s))
                    then SourceFlags else SourceDefaultVal)"
    using keys' act by (simp add: stamp_sources_provideMap)
  ultimately show ?thesis by blast
qed

theorem Parse_stamps_set_flags_witness:
  "fst (fs_Parse [''-b'', ''1''] (fs declared_set)) = Return None
   \<and> actual (fs declared_set) = []
   \<and> consumed_flags [''-b'', ''1''] (fs declared_set) = [''b'']
   \<and> map (provideMap (fst (snd (Set_Parse [''-b'', ''1''] [] (declared_set, ())))))
        [''a'', ''b'', ''c'', ''d'']
       = [Some SourceDefaultVal, Some SourceFlags, Some SourceDefaultVal, Some SourceDefaultVal]
   \<and> fst (fs_Parse [''-b'', ''1''] (fs preset_set)) = Return None
   \<and> actual (fs preset_set) = [''c'']
   \<and> consumed_flags [''-b'', ''1''] (fs preset_set) = [''b'']
   \<and> map (provideMap (fst (snd (Set_Parse [''-b'', ''1''] [] (preset_set, ())))))
        [''a'', ''b'', ''c'', ''d'']
       = [Some SourceDefaultVal, Some SourceFlags, Some SourceFlags, Some SourceDefaultVal]"
proof -
  obtain f where f: "f = snd (fs_Parse [''-b'', ''1''] (fs declared_set))"
    by simp
  have ok: "fst (fs_Parse [''-b'', ''1''] (fs declared_set)) = Return None"
    by code_simp
  with f have p: "fs_Parse [''-b'', ''1''] (fs declared_set) = (Return None, f)"
    by (simp add: prod_eq_iff)
  have fresh: "actual (fs declared_set) = []"
    by (simp add: declared_set_def)
  have cons: "consumed_flags [''-b'', ''1''] (fs declared_set) = [''b'']"
    by code_simp
  have names: "fst ` set (formal (fs declared_set)) = {''a'', ''b'', ''c'', ''d''}"
    by (simp add: declared_set_def)
  obtain g where g: "g = snd (fs_Parse [''-b'', ''1''] (fs preset_set))"
    by simp
  have ok': "fst (fs_Parse [''-b'', ''1''] (fs preset_set)) = Return None"
    by code_simp
  with g have p': "fs_Parse [''-b'', ''1''] (fs preset_set) = (Return None, g)"
    by (simp add: prod_eq_iff)
  have preset: "actual (fs preset_set) = [''c'']"
    by code_simp
  have cons': "consumed_flags [''-b'', ''1''] (fs preset_set) = [''b'']"
    by code_simp
  have "map fst (formal (fs preset_set)) = [''a'', ''b'', ''c'', ''d'']"
    by code_simp
  then have "set (map fst (formal (fs preset_set))) = {''a'', ''b'', ''c'', ''d''}"
    by simp
  then have names': "fst ` set (formal (fs preset_set)) = {''a'', ''b'', ''c'', ''d''}"
    by simp
  from Parse_stamps_set_flags [OF p, of "[]" "()"]
  have one: "map (provideMap (fst (snd (Set_Parse [''-b'', ''1''] [] (declared_set, ())))))
        [''a'', ''b'', ''c'', ''d'']
       = [Some SourceDefaultVal, Some SourceFlags, Some SourceDefaultVal, Some SourceDefaultVal]"
    unfolding cons names fresh by simp
  from Parse_stamps_set_flags [OF p', of "[]" "()"]
  have two: "map (provideMap (fst (snd (Set_Parse [''-b'', ''1''] [] (preset_set, ())))))
        [''a'', ''b'', ''c'', ''d'']
       = [Some SourceDefaultVal, Some SourceFlags, Some SourceFlags, Some SourceDefaultVal]"
    unfolding cons' names' preset by simp
  from ok fresh cons one ok' preset cons' two show ?thesis
    by simp
qed

section \<open>Provenance after the secondary passes\<close>

lemma Set_Set_keeps:
  "map fst (formal (fs (snd (Set_Set src name val s)))) = map fst (formal (fs s))"
  "set (actual (fs s)) \<subseteq> set (actual (fs (snd (Set_Set src name val s))))"
  "m \<noteq> name \<Longrightarrow> provideMap (snd (Set_Set src name val s)) m = provideMap s m"
  "provideMap s name \<noteq> None \<Longrightarrow> provideMap (snd (Set_Set src name val s)) name \<noteq> None"
  by (auto simp: Set_Set_fs fs_Set_keys fs_Set_actual Set_Set_provideMap)

lemma set_own_kept:
  assumes "set_own name s s1" and "name \<notin> A" and "provenance_kept keys A s"
  shows "provenance_kept keys A s1"
proof -
  from assms(1) obtain src val where s1: "s1 = snd (Set_Set src name val s)"
    unfolding set_own_def by blast
  note k = Set_Set_keeps [where src = src and name = name and val = val and s = s]
  show ?thesis
    unfolding provenance_kept_def s1
  proof (intro conjI ballI)
    show "map fst (formal (fs (snd (Set_Set src name val s)))) = keys"
      using k(1) assms(3) by (simp add: provenance_kept_def)
    show "A \<subseteq> set (actual (fs (snd (Set_Set src name val s))))"
      using k(2) assms(3) unfolding provenance_kept_def by blast
  next
    fix m assume "m \<in> A"
    with assms(2) have "m \<noteq> name" by blast
    with k(3) [of m] assms(3) \<open>m \<in> A\<close>
    show "provideMap (snd (Set_Set src name val s)) m = Some SourceFlags"
      by (simp add: provenance_kept_def)
  next
    fix m assume "m \<in> set keys"
    with assms(3) have "provideMap s m \<noteq> None"
      by (simp add: provenance_kept_def)
    then show "provideMap (snd (Set_Set src name val s)) m \<noteq> None"
      using k(3) [of m] k(4) by (cases "m = name") simp_all
  qed
qed

lemma own_sets_kept:
  assumes "rtranclp (set_own name) s s1" and "name \<notin> A" and "provenance_kept keys A s"
  shows "provenance_kept keys A s1"
  using assms(1)
proof (induction rule: rtranclp_induct)
  case base
  show ?case by (rule assms(3))
next
  case (step s1 s2)
  from set_own_kept [OF step.hyps(2) assms(2) step.IH] show ?case .
qed

lemma walk_sets_kept:
  assumes "walk_sets names s s1" and "set names \<inter> A = {}" and "provenance_kept keys A s"
  shows "provenance_kept keys A s1"
  using assms
proof (induction rule: walk_sets.induct)
  case (walk_end names s)
  then show ?case by simp
next
  case (walk_visit name s s1 names s2)
  from walk_visit.prems have notin: "name \<notin> A" and rest: "set names \<inter> A = {}"
    by auto
  from own_sets_kept [OF walk_visit.hyps(1) notin walk_visit.prems(2)]
  have "provenance_kept keys A s1" .
  from walk_visit.IH [OF rest this] show ?case .
qed

lemma remaining_walk_kept:
  assumes "remaining_walk s s1" and "provenance_kept keys A s"
  shows "provenance_kept keys A s1"
proof -
  let ?names = "sorted_list_of_set (fst ` set (formal (fs s)) - set (actual (fs s)))"
  have disj: "set ?names \<inter> A = {}"
    using assms(2) by (auto simp: provenance_kept_def)
  from assms(1) have "walk_sets ?names s s1"
    by (simp add: remaining_walk_def)
  from walk_sets_kept [OF this disj assms(2)] show ?thesis .
qed

lemma remaining_walks_kept:
  assumes "rtranclp remaining_walk s s1" and "provenance_kept keys A s"
  shows "provenance_kept keys A s1"
  using assms(1)
proof (induction rule: rtranclp_induct)
  case base
  show ?case by (rule assms(2))
next
  case (step s1 s2)
  from remaining_walk_kept [OF step.hyps(2) step.IH] show ?case .
qed

lemma remaining_pass_kept:
  assumes "remaining_pass p" and "provenance_kept keys A (fst w)"
  shows "provenance_kept keys A (fst (snd (p w)))"
proof -
  from assms(1) have "rtranclp remaining_walk (fst w) (fst (snd (p w)))"
    unfolding remaining_pass_def by blast
  from remaining_walks_kept [OF this assms(2)] show ?thesis .
qed

lemma run_extraParsers_kept:
  assumes "\<forall>p \<in> set ps. remaining_pass p" and "provenance_kept keys A (fst w)"
  shows "provenance_kept keys A (fst (snd (run_extraParsers ps w)))"
  using assms
proof (induction ps arbitrary: w)
  case Nil
  then show ?case by simp
next
  case (Cons p ps)
  from Cons.prems have p: "remaining_pass p" and rest: "\<forall>p \<in> set ps. remaining_pass p"
    by simp_all
  from remaining_pass_kept [OF p Cons.prems(2)]
  have step: "provenance_kept keys A (fst (snd (p w)))" .
  obtain r w1 where c: "p w = (r, w1)" by (cases "p w")
  show ?case
  proof (cases r)
    case None
    with c step Cons.IH [OF rest, of w1] show ?thesis by simp
  next
    case (Some err)
    with c step show ?thesis by (simp split: ErrorHandling.splits)
  qed
qed

lemma stamp_sources_kept:
  "provenance_kept (map fst (formal (fs s))) (set (actual (fs s))) (stamp_sources s)"
  by (auto simp: provenance_kept_def stamp_sources_fs stamp_sources_provideMap)

text \<open>
  The passes of the class. A \<open>VisitRemaining\<close> walk with a callback that keeps to its
  flag, on any state of the pass's own, is one walk.
\<close>

lemma sets_own_flag_onlyI:
  assumes "\<And>name w. fst (snd (cb name w)) = fst w
             \<or> (\<exists>src val. fst (snd (cb name w)) = snd (Set_Set src name val (fst w)))"
  shows "sets_own_flag_only cb"
  unfolding sets_own_flag_only_def
proof (intro allI)
  fix name w
  from assms [of name w]
  show "rtranclp (set_own name) (fst w) (fst (snd (cb name w)))"
  proof
    assume "fst (snd (cb name w)) = fst w"
    then show ?thesis by simp
  next
    assume "\<exists>src val. fst (snd (cb name w)) = snd (Set_Set src name val (fst w))"
    then have "set_own name (fst w) (fst (snd (cb name w)))"
      unfolding set_own_def .
    then show ?thesis by (rule r_into_rtranclp)
  qed
qed

lemma walk_walk_sets:
  assumes "sets_own_flag_only cb"
  shows "walk_sets names (fst w) (fst (snd (walk names cb w)))"
proof (induction names arbitrary: w)
  case Nil
  show ?case by (simp add: walk_end)
next
  case (Cons name names)
  obtain r w1 where c: "cb name w = (r, w1)" by (cases "cb name w")
  from assms have own: "rtranclp (set_own name) (fst w) (fst w1)"
    unfolding sets_own_flag_only_def using c by (metis snd_conv)
  show ?case
  proof (cases r)
    case None
    from walk_visit [OF own Cons.IH [of w1]] show ?thesis
      using c None by simp
  next
    case (Some err)
    from walk_visit [OF own walk_end] show ?thesis
      using c Some by simp
  qed
qed

lemma VisitRemaining_remaining_walk:
  assumes "sets_own_flag_only cb"
  shows "remaining_walk (fst w) (fst (snd (Set_VisitRemaining cb w)))"
  unfolding remaining_walk_def Set_VisitRemaining_sorted
  by (rule walk_walk_sets [OF assms])

lemma remaining_pass_by_walk:
  assumes "\<And>w. fst (snd (p w)) = fst w \<or> remaining_walk (fst w) (fst (snd (p w)))"
  shows "remaining_pass p"
  unfolding remaining_pass_def
proof
  fix w
  from assms [of w] show "rtranclp remaining_walk (fst w) (fst (snd (p w)))"
    by (auto simp: r_into_rtranclp)
qed

lemma VisitRemaining_remaining_pass:
  assumes "sets_own_flag_only cb"
  shows "remaining_pass (Set_VisitRemaining cb)"
  by (rule remaining_pass_by_walk) (simp add: VisitRemaining_remaining_walk [OF assms])

text \<open>One pass after the other, and a pass observed, stay in the class.\<close>

lemma remaining_pass_then:
  assumes "remaining_pass p" and "remaining_pass q"
  shows "remaining_pass (\<lambda>w. case p w of (None, w1) \<Rightarrow> q w1 | (Some err, w1) \<Rightarrow> (Some err, w1))"
  unfolding remaining_pass_def
proof
  fix w
  obtain r w1 where c: "p w = (r, w1)" by (cases "p w")
  from assms(1) c have one: "rtranclp remaining_walk (fst w) (fst w1)"
    unfolding remaining_pass_def by (metis snd_conv)
  from assms(2) have two: "rtranclp remaining_walk (fst w1) (fst (snd (q w1)))"
    unfolding remaining_pass_def by blast
  show "rtranclp remaining_walk (fst w)
      (fst (snd (case p w of (None, w1) \<Rightarrow> q w1 | (Some err, w1) \<Rightarrow> (Some err, w1))))"
  proof (cases r)
    case None
    with c one two show ?thesis by simp
  next
    case (Some err)
    with c one show ?thesis by simp
  qed
qed

lemma logged_remaining_pass:
  fixes fn :: "'a \<Rightarrow> ('v, 'x) Parser"
  assumes "remaining_pass (fn a)"
  shows "remaining_pass (logged fn a)"
  unfolding remaining_pass_def
proof
  fix w :: "'v Set \<times> 'x \<times> ('a \<times> error option) list"
  obtain s x log where w: "w = (s, x, log)" by (cases w)
  from assms have "rtranclp remaining_walk s (fst (snd (fn a (s, x))))"
    unfolding remaining_pass_def by (metis fst_conv)
  then show "rtranclp remaining_walk (fst w) (fst (snd (logged fn a w)))"
    by (auto simp: w logged_def split: prod.splits)
qed

lemma logged_parsers_remaining:
  assumes "\<forall>p \<in> set ps. remaining_pass p"
  shows "\<forall>q \<in> set (logged_parsers ps). remaining_pass q"
  using assms by (auto simp: logged_parsers_def intro!: logged_remaining_pass)

text \<open>The callback of \<open>env.Parse\<close> keeps to its flag, so the parser is in the class.\<close>

lemma set_each_own: "rtranclp (set_own name) (fst w) (fst (snd (set_each src name vals w)))"
proof (induction vals arbitrary: w)
  case Nil
  show ?case by simp
next
  case (Cons val vals)
  let ?s1 = "snd (Set_Set src name val (fst w))"
  obtain r where c: "call_Set src name val w = (r, (?s1, snd w))"
    by (cases "Set_Set src name val (fst w)") (simp add: call_Set_def)
  have one: "set_own name (fst w) ?s1"
    unfolding set_own_def by blast
  show ?case
  proof (cases r)
    case None
    with c have e: "set_each src name (val # vals) w = set_each src name vals (?s1, snd w)"
      by simp
    from Cons.IH [of "(?s1, snd w)"] one show ?thesis
      unfolding e by (simp add: converse_rtranclp_into_rtranclp)
  next
    case (Some err)
    with c have e: "set_each src name (val # vals) w = (Some (ErrEnv err), (?s1, snd w))"
      by simp
    from one show ?thesis
      unfolding e by (simp add: r_into_rtranclp)
  qed
qed

lemma env_visit_own: "sets_own_flag_only (env_visit opts fileData)"
  unfolding sets_own_flag_only_def
proof (intro allI)
  fix name and w :: "('a, 'b) world"
  obtain envName splitValBy where m: "mapper opts (prefix opts @ name) = (envName, splitValBy)"
    by (cases "mapper opts (prefix opts @ name)")
  let ?found = "if lookupFunc opts envName = None then fileData envName
                else lookupFunc opts envName"
  show "rtranclp (set_own name) (fst w) (fst (snd (env_visit opts fileData name w)))"
  proof (cases ?found)
    case None
    with m have "env_visit opts fileData name w = (None, w)"
      by (simp add: env_visit_def Let_def)
    then show ?thesis by simp
  next
    case (Some val)
    with m have "\<exists>src vals. env_visit opts fileData name w = set_each src name vals w"
      unfolding env_visit_def Let_def
      by (cases "splitValBy = []") (auto simp del: set_each.simps)
    then obtain src vals where "env_visit opts fileData name w = set_each src name vals w"
      by blast
    with set_each_own [of name w src vals] show ?thesis by simp
  qed
qed

lemma env_parser_remaining_pass: "remaining_pass (env_parser readEnvFile opts)"
proof (rule remaining_pass_by_walk)
  fix w :: "('a, 'b) world"
  let ?p = "env_parser readEnvFile opts w"
  have "fst (snd ?p) = fst w
      \<or> (\<exists>fileData. ?p = Set_VisitRemaining (env_visit opts fileData) w)"
    by (auto simp: env_parser_def split: option.splits sum.splits)
  then show "fst (snd ?p) = fst w \<or> remaining_walk (fst w) (fst (snd ?p))"
  proof
    assume "fst (snd ?p) = fst w"
    then show ?thesis by simp
  next
    assume "\<exists>fileData. ?p = Set_VisitRemaining (env_visit opts fileData) w"
    then obtain fileData where "?p = Set_VisitRemaining (env_visit opts fileData) w"
      by blast
    with VisitRemaining_remaining_walk [OF env_visit_own [of opts fileData], of w]
    show ?thesis by simp
  qed
qed

lemma env_Parse_remaining_pass:
  "remaining_pass (env_Parse defaultMapper osLookupEnv readEnvFile opts)"
  unfolding env_Parse_def by (rule env_parser_remaining_pass)

text \<open>The parse tests' parser sets only the flag it visits, so it is in the class.\<close>

lemma testParser_remaining_pass: "remaining_pass (testParser parserID flagToSet)"
proof (rule remaining_pass_by_walk)
  fix w :: "(string, (string \<times> string list) list) world"
  let ?cb = "\<lambda>name (s, seen, out).
       (None :: error option,
        (if name = flagToSet then snd (Set_Set parserID name ''42'' s) else s,
         seen @ [name :: string], out :: (string \<times> string list) list))"
  have own: "sets_own_flag_only ?cb"
    by (rule sets_own_flag_onlyI) (auto split: prod.splits)
  have "fst (snd (testParser parserID flagToSet w))
      = fst (snd (Set_VisitRemaining ?cb (fst w, [], snd w)))"
    by (simp add: testParser_def split: prod.splits option.splits)
  with VisitRemaining_remaining_walk [OF own, of "(fst w, [], snd w)"]
  show "fst (snd (testParser parserID flagToSet w)) = fst w
      \<or> remaining_walk (fst w) (fst (snd (testParser parserID flagToSet w)))"
    by simp
qed

text \<open>
  C9. A resolution run whose parse of the arguments returned nil and whose secondary
  passes all discover flags only through \<open>VisitRemaining\<close> (\<open>env.Parse\<close> and the parse
  tests' parser are such passes), however the run ends: the declared flags are the same
  as before, every declared flag has exactly one provenance entry, and every flag that
  the parse of the arguments consumed is recorded as \<open>SourceFlags\<close>, whatever the
  passes would have set.
\<close>

theorem command_line_provenance_kept:
  assumes "\<forall>p \<in> set ps. remaining_pass p"
    and "fst (fs_Parse arguments (fs s)) = Return None"
  shows "fst ` set (formal (fs (fst (snd (Set_Parse arguments ps (s, x))))))
           = fst ` set (formal (fs s))
       \<and> (\<forall>name \<in> fst ` set (formal (fs s)).
            \<exists>!src. provideMap (fst (snd (Set_Parse arguments ps (s, x)))) name = Some src)
       \<and> (\<forall>name \<in> set (consumed_flags arguments (fs s)).
            provideMap (fst (snd (Set_Parse arguments ps (s, x)))) name = Some SourceFlags)"
proof -
  obtain f where p: "fs_Parse arguments (fs s) = (Return None, f)"
    using assms(2) by (cases "fs_Parse arguments (fs s)") simp
  from fs_Parse_result [of arguments "fs s"] p
  have keys: "map fst (formal f) = map fst (formal (fs s))"
    and act: "set (actual f) = set (actual (fs s)) \<union> set (consumed_flags arguments (fs s))"
    by simp_all
  let ?s1 = "fst (snd (Set_Parse arguments ps (s, x)))"
  from stamp_sources_kept [of "s\<lparr> fs := f \<rparr>"]
  have "provenance_kept (map fst (formal f)) (set (actual f))
          (fst (stamp_sources (s\<lparr> fs := f \<rparr>), x))"
    by simp
  from run_extraParsers_kept [OF assms(1) this]
  have kept: "provenance_kept (map fst (formal f)) (set (actual f)) ?s1"
    by (simp add: Set_Parse_ok [OF p])
  from kept keys have "map fst (formal (fs ?s1)) = map fst (formal (fs s))"
    by (simp add: provenance_kept_def)
  then have k: "fst ` set (formal (fs ?s1)) = fst ` set (formal (fs s))"
    by (metis set_map)
  from kept keys have "\<forall>name \<in> set (map fst (formal (fs s))). provideMap ?s1 name \<noteq> None"
    by (simp add: provenance_kept_def)
  then have e: "\<forall>name \<in> fst ` set (formal (fs s)). \<exists>!src. provideMap ?s1 name = Some src"
    by auto
  from kept act
  have c: "\<forall>name \<in> set (consumed_flags arguments (fs s)). provideMap ?s1 name = Some SourceFlags"
    by (simp add: provenance_kept_def)
  from k e c show ?thesis by blast
qed

theorem command_line_provenance_kept_witness:
  "remaining_pass (env_test_parser :: (string, (string \<times> string list) list) Parser)
   \<and> remaining_pass (testParser ''parser 1'' ''a4'')
   \<and> fst (fs_Parse [''-a1'', ''testdata/.env''] (fs env_test_set)) = Return None
   \<and> consumed_flags [''-a1'', ''testdata/.env''] (fs env_test_set) = [''a1'']
   \<and> fst (Set_Parse [''-a1'', ''testdata/.env''] [env_test_parser, testParser ''parser 1'' ''a4'']
           (env_test_set, []))
       = Return None
   \<and> map (provideMap (fst (snd
          (Set_Parse [''-a1'', ''testdata/.env''] [env_test_parser, testParser ''parser 1'' ''a4'']
             (env_test_set, [])))))
        [''a1'', ''a2'', ''a3'', ''a4'']
       = [Some SourceFlags, Some ''env: APP_A2'', Some ''envfile[testdata/.env]: APP_A3'',
          Some ''parser 1'']
   \<and> snd (snd (Set_Parse [''-a1'', ''testdata/.env''] [env_test_parser, testParser ''parser 1'' ''a4'']
           (env_test_set, [])))
       = [(''parser 1'', [''a4''])]"
proof -
  have env: "remaining_pass (env_test_parser :: (string, (string \<times> string list) list) Parser)"
    unfolding env_test_parser_def by (rule env_Parse_remaining_pass)
  have test: "remaining_pass (testParser ''parser 1'' ''a4'')"
    by (rule testParser_remaining_pass)
  from env test
  have pass: "\<forall>p \<in> set [env_test_parser, testParser ''parser 1'' ''a4'']. remaining_pass p"
    by simp
  have ok: "fst (fs_Parse [''-a1'', ''testdata/.env''] (fs env_test_set)) = Return None"
    by code_simp
  have cons: "consumed_flags [''-a1'', ''testdata/.env''] (fs env_test_set) = [''a1'']"
    by code_simp
  have out: "fst (Set_Parse [''-a1'', ''testdata/.env'']
      [env_test_parser, testParser ''parser 1'' ''a4''] (env_test_set, [])) = Return None"
    by code_simp
  have m: "map (provideMap (fst (snd
          (Set_Parse [''-a1'', ''testdata/.env''] [env_test_parser, testParser ''parser 1'' ''a4'']
             (env_test_set, [])))))
        [''a1'', ''a2'', ''a3'', ''a4'']
       = [Some SourceFlags, Some ''env: APP_A2'', Some ''envfile[testdata/.env]: APP_A3'',
          Some ''parser 1'']"
    by code_simp
  have x: "snd (snd (Set_Parse [''-a1'', ''testdata/.env'']
      [env_test_parser, testParser ''parser 1'' ''a4''] (env_test_set, [])))
       = [(''parser 1'', [''a4''])]"
    by code_simp
  from command_line_provenance_kept [OF pass ok, of "[]"] env test ok cons out m x
  show ?thesis
    by simp
qed

section \<open>Properties of the slices over backing arrays\<close>

lemma Slice_h_result:
  assumes "hdr_ok h0 d" and "Slice_h zero isBool d parse h0 = (f, h1)"
  shows "owned (fresh h0) h1 f"
    and "abs_slice h1 f = Slice isBool (read_h h0 d) parse"
    and "\<forall>a < fresh h0. arrays h1 a = arrays h0 a"
    and "fresh h0 \<le> fresh h1"
proof -
  from assms(1) have d: "ptr d < fresh h0" "len d \<le> cap d"
    "off d + cap d \<le> length (arrays h0 (ptr d))"
    by (simp_all add: hdr_ok_def)
  then have l: "length (read_h h0 d) = len d"
    by (simp add: read_h_def)
  from assms(2) have f: "f = \<lparr> h_Value = \<lparr> ptr = fresh h0, off = 0, len = len d, cap = len d \<rparr>,
        h_Parse = parse, h_written = False, h_IsBool = isBool \<rparr>"
    and h1: "h1 = copy_h \<lparr> ptr = fresh h0, off = 0, len = len d, cap = len d \<rparr> d
        (h0\<lparr> arrays := (arrays h0)(fresh h0 := replicate (len d) zero),
             fresh := Suc (fresh h0) \<rparr>)"
    by (simp_all add: Slice_h_def make_h_def)
  have rd: "read_h (h0\<lparr> arrays := (arrays h0)(fresh h0 := replicate (len d) zero),
             fresh := Suc (fresh h0) \<rparr>) d = read_h h0 d"
    using d(1) by (simp add: read_h_def)
  have arr: "arrays h1 = (arrays h0)(fresh h0 := read_h h0 d)"
    unfolding h1 copy_h_def Let_def rd using l by (simp add: fun_eq_iff)
  have fr: "fresh h1 = Suc (fresh h0)"
    unfolding h1 by (simp add: copy_h_def Let_def)
  show "owned (fresh h0) h1 f"
    using l by (simp add: owned_def hdr_ok_def f arr fr)
  show "abs_slice h1 f = Slice isBool (read_h h0 d) parse"
    using l by (simp add: abs_slice_def Slice_def f arr read_h_def)
  show "\<forall>a < fresh h0. arrays h1 a = arrays h0 a"
    by (simp add: arr)
  show "fresh h0 \<le> fresh h1"
    by (simp add: fr)
qed

lemma read_h_length: "hdr_ok h s \<Longrightarrow> length (read_h h s) = len s"
  by (auto simp: hdr_ok_def read_h_def)

lemma append_h_result:
  assumes ok: "hdr_ok h s" and n: "n \<le> ptr s" and app: "append_h grow zero h s v = (s1, h1)"
  shows "hdr_ok h1 s1 \<and> n \<le> ptr s1 \<and> read_h h1 s1 = read_h h s @ [v]
       \<and> (\<forall>a < n. arrays h1 a = arrays h a) \<and> fresh h \<le> fresh h1"
proof (cases "len s < cap s")
  case True
  with app have s1: "s1 = s\<lparr> len := len s + 1 \<rparr>"
    and h1: "h1 = h\<lparr> arrays := (arrays h)(ptr s := (arrays h (ptr s))[off s + len s := v]) \<rparr>"
    by (simp_all add: append_h_def)
  let ?a = "arrays h (ptr s)"
  from ok True have inr: "len s < length (drop (off s) ?a)"
    by (auto simp: hdr_ok_def)
  have "take (Suc (len s)) ((drop (off s) ?a)[len s := v]) = take (len s) (drop (off s) ?a) @ [v]"
    using inr by (simp add: take_Suc_conv_app_nth)
  then have rd: "read_h h1 s1 = read_h h s @ [v]"
    by (simp add: read_h_def s1 h1 drop_update_swap)
  from ok True have "hdr_ok h1 s1"
    by (simp add: hdr_ok_def s1 h1)
  moreover have "\<forall>a < n. arrays h1 a = arrays h a"
    using n by (simp add: h1)
  ultimately show ?thesis
    using rd n by (simp add: s1 h1)
next
  case False
  let ?c = "max (len s + 1) (grow (cap s))"
  from False app have s1: "s1 = \<lparr> ptr = fresh h, off = 0, len = len s + 1, cap = ?c \<rparr>"
    and h1: "h1 = h\<lparr> arrays := (arrays h)(fresh h :=
                    read_h h s @ [v] @ replicate (?c - (len s + 1)) zero),
                fresh := Suc (fresh h) \<rparr>"
    by (simp_all add: append_h_def Let_def)
  note l = read_h_length [OF ok]
  have rd: "read_h h1 s1 = read_h h s @ [v]"
    unfolding s1 h1 by (subst read_h_def) (simp add: l)
  have "hdr_ok h1 s1"
    using l by (simp add: hdr_ok_def s1 h1)
  moreover from ok n have "n \<le> fresh h"
    by (simp add: hdr_ok_def)
  ultimately show ?thesis
    using rd by (simp add: s1 h1)
qed

lemma slice_Set_h_refines:
  assumes own: "owned n h f" and run: "slice_Set_h grow zero s (f, h) = (r, f1, h1)"
  shows "owned n h1 f1 \<and> slice_Set (abs_slice h f) s = (r, abs_slice h1 f1)
       \<and> (\<forall>a < n. arrays h1 a = arrays h a) \<and> fresh h \<le> fresh h1"
proof -
  let ?f1 = "if \<not> h_written f
             then f\<lparr> h_Value := (h_Value f)\<lparr> len := 0 \<rparr>, h_written := True \<rparr> else f"
  from own have own1: "owned n h ?f1"
    by (simp add: owned_def hdr_ok_def)
  have abs1: "abs_slice h ?f1 =
      (if \<not> slice_written (abs_slice h f)
       then (abs_slice h f)\<lparr> slice_Value := take 0 (slice_Value (abs_slice h f)),
                               slice_written := True \<rparr>
       else abs_slice h f)"
    by (simp add: abs_slice_def read_h_def)
  show ?thesis
  proof (cases "h_Parse f s")
    case (Inl err)
    with run have "r = Some err" "f1 = ?f1" "h1 = h"
      by (simp_all add: slice_Set_h_def Let_def split: if_splits)
    moreover have "slice_Set (abs_slice h f) s = (Some err, abs_slice h ?f1)"
      using Inl unfolding abs1 by (simp add: slice_Set_def Let_def abs_slice_def)
    ultimately show ?thesis
      using own1 by simp
  next
    case (Inr v)
    obtain s1 h2 where app: "append_h grow zero h (h_Value ?f1) v = (s1, h2)"
      by (cases "append_h grow zero h (h_Value ?f1) v")
    from Inr run app have res: "r = None" "f1 = ?f1\<lparr> h_Value := s1 \<rparr>" "h1 = h2"
      by (simp_all add: slice_Set_h_def Let_def split: if_splits)
    from own1 have ok1: "hdr_ok h (h_Value ?f1)" and n1: "n \<le> ptr (h_Value ?f1)"
      by (simp_all add: owned_def)
    from append_h_result [OF ok1 n1 app]
    have a: "hdr_ok h2 s1" "n \<le> ptr s1" "read_h h2 s1 = read_h h (h_Value ?f1) @ [v]"
      "\<forall>a < n. arrays h2 a = arrays h a" "fresh h \<le> fresh h2"
      by simp_all
    have "slice_Set (abs_slice h f) s
        = (None, (abs_slice h ?f1)\<lparr> slice_Value := slice_Value (abs_slice h ?f1) @ [v] \<rparr>)"
      using Inr unfolding abs1 by (simp add: slice_Set_def Let_def abs_slice_def)
    moreover have "(abs_slice h ?f1)\<lparr> slice_Value := slice_Value (abs_slice h ?f1) @ [v] \<rparr>
        = abs_slice h2 (?f1\<lparr> h_Value := s1 \<rparr>)"
      using a(3) by (simp add: abs_slice_def)
    ultimately show ?thesis
      using a res by (simp add: owned_def)
  qed
qed

lemma caller_store_frame:
  assumes "owned n h f" and "a < n"
  shows "owned n (caller_store a i v h) f"
    and "abs_slice (caller_store a i v h) f = abs_slice h f"
  using assms by (auto simp: owned_def hdr_ok_def caller_store_def abs_slice_def read_h_def)

lemma run_steps_frame:
  assumes "owned n h f" and "stores_below n steps"
    and "\<forall>a < n. arrays h a = arrays h' a"
  shows "owned n (snd (run_steps grow zero steps (f, h))) (fst (run_steps grow zero steps (f, h)))
       \<and> abs_slice (snd (run_steps grow zero steps (f, h))) (fst (run_steps grow zero steps (f, h)))
           = snd (slice_Sets (abs_slice h f) (set_strings steps))
       \<and> (\<forall>a < n. arrays (snd (run_steps grow zero steps (f, h))) a
                    = arrays (caller_stores steps h') a)"
  using assms
proof (induction steps arbitrary: f h h')
  case Nil
  then show ?case by simp
next
  case (Cons step steps)
  show ?case
  proof (cases step)
    case (SetFlag s)
    obtain r f1 h1 where run: "slice_Set_h grow zero s (f, h) = (r, f1, h1)"
      by (cases "slice_Set_h grow zero s (f, h)") auto
    from slice_Set_h_refines [OF Cons.prems(1) run]
    have r: "owned n h1 f1" "slice_Set (abs_slice h f) s = (r, abs_slice h1 f1)"
      "\<forall>a < n. arrays h1 a = arrays h a"
      by simp_all
    from r(3) Cons.prems(3) have agree: "\<forall>a < n. arrays h1 a = arrays h' a"
      by simp
    from Cons.prems(2) SetFlag have rest: "stores_below n steps"
      by simp
    from Cons.IH [OF r(1) rest agree] show ?thesis
      using SetFlag run r(2) by (simp split: prod.splits)
  next
    case (CallerStore a i v)
    with Cons.prems(2) have a: "a < n" and rest: "stores_below n steps"
      by simp_all
    note fr = caller_store_frame [OF Cons.prems(1) a, of i v]
    have agree: "\<forall>b < n. arrays (caller_store a i v h) b = arrays (caller_store a i v h') b"
      using Cons.prems(3) a by (simp add: caller_store_def)
    from Cons.IH [OF fr(1) rest agree] show ?thesis
      using CallerStore fr(2) by simp
  qed
qed

text \<open>
  C6. A slice flag declared with \<open>Slice\<close> from a caller's slice \<open>d\<close> (a slice of an
  allocated array), followed by any sequence of \<open>Set\<close> calls on the flag and of stores by
  the caller into arrays that existed before the declaration (the array of \<open>d\<close> among
  them): the flag's value is the one that the \<open>Set\<close> calls alone give from the elements
  \<open>d\<close> had at the declaration, so no store of the caller changes it; and every array
  that existed before the declaration holds what the caller's stores alone give, so
  neither the declaration nor any \<open>Set\<close> changes it.
\<close>

theorem Slice_copies_default:
  assumes "hdr_ok h0 d" and "stores_below (fresh h0) steps"
  shows "read_h (snd (run_steps grow zero steps (Slice_h zero isBool d parse h0)))
              (h_Value (fst (run_steps grow zero steps (Slice_h zero isBool d parse h0))))
           = slice_Val (snd (slice_Sets (Slice isBool (read_h h0 d) parse) (set_strings steps)))
       \<and> (\<forall>a < fresh h0.
            arrays (snd (run_steps grow zero steps (Slice_h zero isBool d parse h0))) a
              = arrays (caller_stores steps h0) a)"
proof -
  obtain f h1 where decl: "Slice_h zero isBool d parse h0 = (f, h1)"
    by (cases "Slice_h zero isBool d parse h0")
  note s = Slice_h_result [OF assms(1) decl]
  from run_steps_frame [OF s(1) assms(2) s(3), of grow zero]
  have "abs_slice (snd (run_steps grow zero steps (f, h1))) (fst (run_steps grow zero steps (f, h1)))
           = snd (slice_Sets (Slice isBool (read_h h0 d) parse) (set_strings steps))"
    and old: "\<forall>a < fresh h0. arrays (snd (run_steps grow zero steps (f, h1))) a
                    = arrays (caller_stores steps h0) a"
    using s(2) by simp_all
  then have "read_h (snd (run_steps grow zero steps (f, h1)))
              (h_Value (fst (run_steps grow zero steps (f, h1))))
           = slice_Val (snd (slice_Sets (Slice isBool (read_h h0 d) parse) (set_strings steps)))"
    by (metis abs_slice_def slice_Val_def slice_rec.select_convs(1))
  with old show ?thesis
    unfolding decl by simp
qed

theorem Slice_copies_default_witness:
  "hdr_ok caller_heap caller_slice
   \<and> stores_below (fresh caller_heap) [SetFlag ''1'', CallerStore 0 0 ''z'', SetFlag ''2'']
   \<and> read_h (snd (run_steps (\<lambda>c. 2 * c) [] [SetFlag ''1'', CallerStore 0 0 ''z'', SetFlag ''2'']
                 (Slice_h [] False caller_slice parseString caller_heap)))
        (h_Value (fst (run_steps (\<lambda>c. 2 * c) [] [SetFlag ''1'', CallerStore 0 0 ''z'', SetFlag ''2'']
                 (Slice_h [] False caller_slice parseString caller_heap))))
       = [''1'', ''2'']
   \<and> read_h (snd (run_steps (\<lambda>c. 2 * c) [] [SetFlag ''1'', CallerStore 0 0 ''z'', SetFlag ''2'']
                 (Slice_h [] False caller_slice parseString caller_heap))) caller_slice
       = [''z'', ''b'', ''c'']
   \<and> read_h (snd (run_steps (\<lambda>c. 2 * c) [] [CallerStore 0 0 ''z'']
                 (Slice_h [] False caller_slice parseString caller_heap)))
        (h_Value (fst (run_steps (\<lambda>c. 2 * c) [] [CallerStore 0 0 ''z'']
                 (Slice_h [] False caller_slice parseString caller_heap))))
       = [''a'', ''b'', ''c'']"
proof -
  have ok: "hdr_ok caller_heap caller_slice"
    by (simp add: hdr_ok_def caller_heap_def caller_slice_def)
  have below: "stores_below (fresh caller_heap) [SetFlag ''1'', CallerStore 0 0 ''z'', SetFlag ''2'']"
    "stores_below (fresh caller_heap) [CallerStore 0 0 (''z'' :: string)]"
    by (simp_all add: caller_heap_def)
  have d: "read_h caller_heap caller_slice = [''a'', ''b'', ''c'']"
    by (simp add: read_h_def caller_heap_def caller_slice_def)
  have sets: "slice_Val (snd (slice_Sets (Slice False [''a'', ''b'', ''c''] parseString)
      [''1'', ''2''])) = [''1'', ''2'']"
    by (simp add: slice_Set_def Slice_def slice_Val_def parseString_def Let_def)
  have none: "slice_Val (snd (slice_Sets (Slice False [''a'', ''b'', ''c''] parseString) []))
      = [''a'', ''b'', ''c'']"
    by (simp add: Slice_def slice_Val_def)
  have old: "read_h (caller_stores [SetFlag ''1'', CallerStore 0 0 ''z'', SetFlag ''2''] caller_heap)
      caller_slice = [''z'', ''b'', ''c'']"
    by (simp add: read_h_def caller_store_def caller_heap_def caller_slice_def)
  have p: "ptr caller_slice < fresh caller_heap"
    by (simp add: caller_heap_def caller_slice_def)
  note a = Slice_copies_default [OF ok below(1), of "\<lambda>c. 2 * c" "[]" False parseString]
  note b = Slice_copies_default [OF ok below(2), of "\<lambda>c. 2 * c" "[]" False parseString]
  from a p have "read_h (snd (run_steps (\<lambda>c. 2 * c) [] [SetFlag ''1'', CallerStore 0 0 ''z'', SetFlag ''2'']
                 (Slice_h [] False caller_slice parseString caller_heap))) caller_slice
       = read_h (caller_stores [SetFlag ''1'', CallerStore 0 0 ''z'', SetFlag ''2''] caller_heap)
           caller_slice"
    by (simp add: read_h_def)
  with a b ok below d sets none old show ?thesis
    by simp
qed

end
